theory Spec2Isabelle
  imports Main "HOL-Library.Word" "HOL-Library.Sublist"
begin

section \<open>Machine integers of disksize.c\<close>

text \<open>
  The program is compiled for 64-bit Linux: \<^verbatim>\<open>off_t\<close> is a signed 64-bit integer,
  \<^verbatim>\<open>size_t\<close> and \<^verbatim>\<open>unsigned long long\<close> are unsigned 64-bit integers and \<^verbatim>\<open>int\<close>
  has 32 bits. Values are modelled as \<open>int\<close>, with every conversion written out.
\<close>

type_synonym byte = "8 word"

text \<open>An \<^verbatim>\<open>unsigned char buf[MAXBLOCKSIZE]\<close>: only indices below \<open>MAXBLOCKSIZE\<close> exist.\<close>

type_synonym buffer = "nat \<Rightarrow> byte"

definition MINBLOCKSIZE :: nat where
  "MINBLOCKSIZE = 512"

definition MAXBLOCKSIZE :: nat where
  "MAXBLOCKSIZE = 4096"

definition INT_MAX :: int where
  "INT_MAX = 2 ^ 31 - 1"

definition OFF_MIN :: int where
  "OFF_MIN = - (2 ^ 63)"

definition OFF_MAX :: int where
  "OFF_MAX = 2 ^ 63 - 1"

text \<open>Conversion of an integer value to \<^verbatim>\<open>unsigned long long\<close> / \<^verbatim>\<open>size_t\<close>.\<close>

definition to_u64 :: "int \<Rightarrow> int" where
  "to_u64 x = x mod 2 ^ 64"

text \<open>Conversion of an integer value to \<^verbatim>\<open>off_t\<close> (two's complement, as gcc defines it).\<close>

definition to_off_t :: "int \<Rightarrow> int" where
  "to_off_t x = (x + 2 ^ 63) mod 2 ^ 64 - 2 ^ 63"

text \<open>C's \<^verbatim>\<open>/\<close> and \<^verbatim>\<open>%\<close> on signed operands truncate towards zero.\<close>

definition c_div :: "int \<Rightarrow> int \<Rightarrow> int" where
  "c_div a b = sgn a * sgn b * (\<bar>a\<bar> div \<bar>b\<bar>)"

definition c_rem :: "int \<Rightarrow> int \<Rightarrow> int" where
  "c_rem a b = sgn a * (\<bar>a\<bar> mod \<bar>b\<bar>)"

section \<open>The system calls and the device behind them\<close>

datatype errno = ENODEV | ENXIO | ENOMEDIUM | ENOENT | EPERM | EACCES | EOTHER

text \<open>
  The device and the kernel are a state machine over a state \<open>'d\<close>. Every system call
  the program makes is a field: it takes the state and gives its C result and the next
  state. \<open>sys_open\<close> gives \<open>Inl e\<close> when \<^verbatim>\<open>open\<close> returns a negative descriptor with
  \<^verbatim>\<open>errno = e\<close>; \<open>sys_lseek\<close> gives the offset \<^verbatim>\<open>lseek\<close> returns; \<open>sys_read d pos n\<close> is
  \<^verbatim>\<open>read(fd, buf, n)\<close> at file position \<open>pos\<close>: \<open>Inl e\<close> for a negative result, \<open>Inr bs\<close>
  when \<open>length bs\<close> bytes were transferred, the bytes being \<open>bs\<close>; \<open>sys_write d pos bs\<close>
  is \<^verbatim>\<open>write(fd, buf, length bs)\<close> and gives the number of bytes written;
  \<open>sys_fsync\<close> and \<open>sys_close\<close> give the C result (0 for success).
\<close>

record 'd syscalls =
  sys_open :: "'d \<Rightarrow> (errno + unit) \<times> 'd"
  sys_lseek :: "'d \<Rightarrow> int \<Rightarrow> int \<times> 'd"
  sys_read :: "'d \<Rightarrow> int \<Rightarrow> nat \<Rightarrow> (errno + byte list) \<times> 'd"
  sys_write :: "'d \<Rightarrow> int \<Rightarrow> byte list \<Rightarrow> (errno + nat) \<times> 'd"
  sys_fsync :: "'d \<Rightarrow> int \<times> 'd"
  sys_close :: "'d \<Rightarrow> int \<times> 'd"

text \<open>
  What an observer of the process sees: each call of \<open>readbacktest\<close> with its
  arguments, and each \<^verbatim>\<open>read\<close> and \<^verbatim>\<open>write\<close> issued, with the file position, the
  request and the result of the call.
\<close>

datatype event =
    Probe int int int
  | Rd int nat "errno + byte list"
  | Wr int "byte list" "errno + nat"

record 'd world =
  dev :: 'd
  log :: "event list"

text \<open>
  Every way the process stops other than \<^verbatim>\<open>exit(0)\<close>. All but \<open>Undefined\<close> print a
  message and call \<^verbatim>\<open>exit(-1)\<close>; \<open>Undefined\<close> stands for behaviour the C standard
  leaves undefined (signed overflow, division by zero, a buffer overrun).
  \<open>TestFailed mismatch corruption\<close> is the exit at the end of \<open>readbacktest\<close>.
\<close>

datatype failure =
    NoDeviceConnected
  | DoesNotExist
  | NotAllowed
  | OpenError
  | SeekFailed
  | SeekWent int
  | ReadFailed
  | ShortRead nat
  | WriteFailed
  | ShortWrite nat
  | FsyncError
  | CloseError
  | TestFailed nat nat
  | Undefined

text \<open>The argument of \<^verbatim>\<open>exit\<close> on each path (\<open>None\<close>: no defined exit).\<close>

fun exit_status :: "failure + unit \<Rightarrow> int option" where
  "exit_status (Inr u) = Some 0"
| "exit_status (Inl Undefined) = None"
| "exit_status (Inl f) = Some (- 1)"

text \<open>The \<^verbatim>\<open>switch (errno)\<close> after a failed \<^verbatim>\<open>open\<close>.\<close>

fun open_failure :: "errno \<Rightarrow> failure" where
  "open_failure ENODEV = NoDeviceConnected"
| "open_failure ENXIO = NoDeviceConnected"
| "open_failure ENOMEDIUM = NoDeviceConnected"
| "open_failure ENOENT = DoesNotExist"
| "open_failure EPERM = NotAllowed"
| "open_failure EACCES = NotAllowed"
| "open_failure EOTHER = OpenError"

text \<open>Sequencing: a failure (an \<^verbatim>\<open>exit\<close>) ends the run with the world as it is then.\<close>

definition bind :: "(failure + 'a) \<times> 'w \<Rightarrow> ('a \<Rightarrow> 'w \<Rightarrow> (failure + 'b) \<times> 'w) \<Rightarrow> (failure + 'b) \<times> 'w" where
  "bind r f = (case r of (Inl e, w) \<Rightarrow> (Inl e, w) | (Inr x, w) \<Rightarrow> f x w)"

section \<open>checkedread and checkedwrite\<close>

text \<open>
  \<^verbatim>\<open>void checkedread(off_t address, void * buf, size_t size)\<close>: open, seek, read,
  fsync, close, each checked (\<open>sz\<close> is the C parameter \<^verbatim>\<open>size\<close>). The model returns
  the bytes read; the caller stores them in its buffer.
\<close>

definition checkedread :: "'d syscalls \<Rightarrow> int \<Rightarrow> nat \<Rightarrow> 'd world \<Rightarrow> (failure + byte list) \<times> 'd world" where
  "checkedread ops address sz w =
    (case sys_open ops (dev w) of
      (Inl e, d1) \<Rightarrow> (Inl (open_failure e), w\<lparr>dev := d1\<rparr>)
    | (Inr fd, d1) \<Rightarrow>
      (case sys_lseek ops d1 address of (n, d2) \<Rightarrow>
        if n < 0 then (Inl SeekFailed, w\<lparr>dev := d2\<rparr>)
        else if n \<noteq> address then (Inl (SeekWent n), w\<lparr>dev := d2\<rparr>)
        else
          (case sys_read ops d2 address sz of (nn, d3) \<Rightarrow>
            (let w3 = \<lparr>dev = d3, log = log w @ [Rd address sz nn]\<rparr> in
              (case nn of
                Inl e \<Rightarrow> (Inl ReadFailed, w3)
              | Inr data \<Rightarrow>
                  if length data \<noteq> sz then (Inl (ShortRead (length data)), w3)
                  else
                    (case sys_fsync ops d3 of (r4, d4) \<Rightarrow>
                      if r4 \<noteq> 0 then (Inl FsyncError, w3\<lparr>dev := d4\<rparr>)
                      else
                        (case sys_close ops d4 of (r5, d5) \<Rightarrow>
                          if r5 \<noteq> 0 then (Inl CloseError, w3\<lparr>dev := d5\<rparr>)
                          else (Inr data, w3\<lparr>dev := d5\<rparr>))))))))"

text \<open>
  \<^verbatim>\<open>void checkedwrite(off_t address, void * buf, size_t size)\<close>: the bytes written are
  the first \<open>sz\<close> bytes (the C parameter \<^verbatim>\<open>size\<close>) of \<open>buf\<close>.
\<close>

definition checkedwrite :: "'d syscalls \<Rightarrow> int \<Rightarrow> buffer \<Rightarrow> nat \<Rightarrow> 'd world \<Rightarrow> (failure + unit) \<times> 'd world" where
  "checkedwrite ops address buf sz w =
    (case sys_open ops (dev w) of
      (Inl e, d1) \<Rightarrow> (Inl (open_failure e), w\<lparr>dev := d1\<rparr>)
    | (Inr fd, d1) \<Rightarrow>
      (case sys_lseek ops d1 address of (n, d2) \<Rightarrow>
        if n < 0 then (Inl SeekFailed, w\<lparr>dev := d2\<rparr>)
        else if n \<noteq> address then (Inl (SeekWent n), w\<lparr>dev := d2\<rparr>)
        else
          (case sys_write ops d2 address (map buf [0..<sz]) of (nn, d3) \<Rightarrow>
            (let w3 = \<lparr>dev = d3, log = log w @ [Wr address (map buf [0..<sz]) nn]\<rparr> in
              (case nn of
                Inl e \<Rightarrow> (Inl WriteFailed, w3)
              | Inr k \<Rightarrow>
                  if k \<noteq> sz then (Inl (ShortWrite k), w3)
                  else
                    (case sys_fsync ops d3 of (r4, d4) \<Rightarrow>
                      if r4 \<noteq> 0 then (Inl FsyncError, w3\<lparr>dev := d4\<rparr>)
                      else
                        (case sys_close ops d4 of (r5, d5) \<Rightarrow>
                          if r5 \<noteq> 0 then (Inl CloseError, w3\<lparr>dev := d5\<rparr>)
                          else (Inr (), w3\<lparr>dev := d5\<rparr>))))))))"

section \<open>readbacktest\<close>

text \<open>Storing the bytes a read transferred at the start of a buffer.\<close>

definition fill :: "buffer \<Rightarrow> byte list \<Rightarrow> buffer" where
  "fill buf data = (\<lambda>n. if n < length data then data ! n else buf n)"

text \<open>
  \<^verbatim>\<open>for (n = 0; n < blocksize; ++n) writedata[n] = (i + n) % 256;\<close> with \<open>i\<close> and \<open>n\<close>
  of type \<^verbatim>\<open>int\<close>: the sum overflows (undefined, \<open>None\<close>) beyond \<open>INT_MAX\<close>; the
  remainder is converted to \<^verbatim>\<open>unsigned char\<close>.
\<close>

function store_pattern :: "int \<Rightarrow> nat \<Rightarrow> nat \<Rightarrow> buffer \<Rightarrow> buffer option" where
  "store_pattern i blocksize n writedata =
    (if n < blocksize then
       (if INT_MAX < i + int n then None
        else store_pattern i blocksize (Suc n) (writedata(n := word_of_int (c_rem (i + int n) 256))))
     else Some writedata)"
  by pat_completeness auto
termination
  by (relation "measure (\<lambda>(i, blocksize, n, writedata). blocksize - n)") auto

text \<open>
  The two comparison loops, \<^verbatim>\<open>for (n = 0; n < limit; ++n) if (x[n] != y[n]) ++count;\<close>.
  The diagnostic lines they print are not modelled.
\<close>

function count_differing :: "buffer \<Rightarrow> buffer \<Rightarrow> nat \<Rightarrow> nat \<Rightarrow> nat \<Rightarrow> nat" where
  "count_differing x y limit n count =
    (if n < limit then count_differing x y limit (Suc n) (if x n \<noteq> y n then Suc count else count)
     else count)"
  by pat_completeness auto
termination
  by (relation "measure (\<lambda>(x, y, limit, n, count). limit - n)") auto

text \<open>
  The four local arrays of \<open>readbacktest\<close> are not initialised: their content at entry
  is whatever the stack holds, a parameter of the model.
\<close>

record frame =
  prevdata0 :: buffer
  originalreaddata0 :: buffer
  writedata0 :: buffer
  readbackdata0 :: buffer

text \<open>
  \<^verbatim>\<open>void readbacktest(off_t address, off_t modulo, int i)\<close>, with the global
  \<^verbatim>\<open>blocksize\<close> as a parameter (\<open>modulus\<close> is the C parameter \<^verbatim>\<open>modulo\<close>). \<^verbatim>\<open>address -= blocksize\<close> is computed in \<^verbatim>\<open>size_t\<close> and
  converted back; \<^verbatim>\<open>address % modulo\<close> is undefined for a zero divisor and for
  \<^verbatim>\<open>LONG_MIN % -1\<close>; a block size above \<open>MAXBLOCKSIZE\<close> overruns the arrays.
\<close>

definition shadow :: "nat \<Rightarrow> int \<Rightarrow> int \<Rightarrow> int" where
  "shadow blocksize address modulus = c_rem (to_off_t (address - int blocksize)) modulus"

definition readbacktest :: "'d syscalls \<Rightarrow> nat \<Rightarrow> frame \<Rightarrow> int \<Rightarrow> int \<Rightarrow> int \<Rightarrow> 'd world \<Rightarrow> (failure + unit) \<times> 'd world" where
  "readbacktest ops blocksize fr address0 modulus i w0 =
    (let w = w0\<lparr>log := log w0 @ [Probe address0 modulus i]\<rparr>;
         address = to_off_t (address0 - int blocksize)
     in
      if modulus = 0 \<or> (address = OFF_MIN \<and> modulus = - 1) then (Inl Undefined, w)
      else if MAXBLOCKSIZE < blocksize then (Inl Undefined, w)
      else
        (let old = shadow blocksize address0 modulus in
          bind (checkedread ops old blocksize w) (\<lambda>d1 w1.
          bind (checkedread ops address blocksize w1) (\<lambda>d2 w2.
            (let prevdata = fill (prevdata0 fr) d1;
                 originalreaddata = fill (originalreaddata0 fr) d2
             in
              (case store_pattern i blocksize 0 (writedata0 fr) of
                None \<Rightarrow> (Inl Undefined, w2)
              | Some writedata \<Rightarrow>
                  bind (checkedwrite ops address writedata blocksize w2) (\<lambda>u3 w3.
                  bind (checkedread ops address blocksize w3) (\<lambda>d4 w4.
                    (let readbackdata = fill (readbackdata0 fr) d4;
                         mismatch = count_differing readbackdata writedata MAXBLOCKSIZE 0 0
                     in
                      bind (checkedwrite ops address originalreaddata blocksize w4) (\<lambda>u5 w5.
                      bind (checkedread ops old blocksize w5) (\<lambda>d6 w6.
                        (let readbackdata' = fill readbackdata d6;
                             corruption = count_differing readbackdata' prevdata blocksize 0 0
                         in
                          bind (if corruption \<noteq> 0
                                then checkedwrite ops address prevdata blocksize w6
                                else (Inr (), w6)) (\<lambda>u7 w7.
                            if mismatch \<noteq> 0 \<or> corruption \<noteq> 0
                            then (Inl (TestFailed mismatch corruption), w7)
                            else (Inr (), w7))))))))))))))"

section \<open>The read/write size test of main\<close>

text \<open>
  The part of \<^verbatim>\<open>main\<close> after the two confirmations. \<^verbatim>\<open>totalsize\<close> is an
  \<^verbatim>\<open>unsigned long long\<close>, \<^verbatim>\<open>offset\<close> an \<^verbatim>\<open>off_t\<close> and \<^verbatim>\<open>i\<close> an \<^verbatim>\<open>int\<close>. Comparing or
  adding \<^verbatim>\<open>offset\<close> and \<^verbatim>\<open>totalsize\<close> converts \<^verbatim>\<open>offset\<close> to unsigned and wraps;
  \<^verbatim>\<open>offset * 2\<close> and \<^verbatim>\<open>++i\<close> are signed and undefined on overflow. \<open>stack i\<close> is the
  content of the stack under the call of \<open>readbacktest\<close> with sequence number \<open>i\<close>.

  \<^verbatim>\<open>for (i = 0; offset <= totalsize; ++i) { readbacktest(offset, offset / 2, i);
  offset = offset * 2; }\<close>
\<close>

function main_phase1 :: "'d syscalls \<Rightarrow> nat \<Rightarrow> (int \<Rightarrow> frame) \<Rightarrow> 64 word \<Rightarrow> int \<Rightarrow> int \<Rightarrow> 'd world \<Rightarrow> (failure + int \<times> int) \<times> 'd world" where
  "main_phase1 ops blocksize stack totalsize offset i w =
    (if to_u64 offset \<le> uint totalsize then
       (case readbacktest ops blocksize (stack i) offset (c_div offset 2) i w of
          (Inl e, w') \<Rightarrow> (Inl e, w')
        | (Inr u, w') \<Rightarrow>
            if offset * 2 < OFF_MIN \<or> OFF_MAX < offset * 2 then (Inl Undefined, w')
            else if INT_MAX \<le> i then (Inl Undefined, w')
            else main_phase1 ops blocksize stack totalsize (offset * 2) (i + 1) w')
     else (Inr (offset, i), w))"
  by pat_completeness auto
termination
  by (relation "measure (\<lambda>(ops, blocksize, stack, totalsize, offset, i, w). nat (INT_MAX - i))") auto

text \<open>
  \<^verbatim>\<open>while (totalsize - offset > 1024*1024) { ++i; offset = (offset + totalsize) / 2;
  readbacktest(offset, modulo, i); }\<close>
\<close>

function main_phase2 :: "'d syscalls \<Rightarrow> nat \<Rightarrow> (int \<Rightarrow> frame) \<Rightarrow> 64 word \<Rightarrow> int \<Rightarrow> int \<Rightarrow> int \<Rightarrow> 'd world \<Rightarrow> (failure + unit) \<times> 'd world" where
  "main_phase2 ops blocksize stack totalsize modulus offset i w =
    (if 1024 * 1024 < to_u64 (uint totalsize - to_u64 offset) then
       (if INT_MAX \<le> i then (Inl Undefined, w)
        else
          (case readbacktest ops blocksize (stack (i + 1))
                  (to_off_t (to_u64 (to_u64 offset + uint totalsize) div 2)) modulus (i + 1) w of
             (Inl e, w') \<Rightarrow> (Inl e, w')
           | (Inr u, w') \<Rightarrow>
               main_phase2 ops blocksize stack totalsize modulus
                 (to_off_t (to_u64 (to_u64 offset + uint totalsize) div 2)) (i + 1) w'))
     else (Inr (), w))"
  by pat_completeness auto
termination
  by (relation "measure (\<lambda>(ops, blocksize, stack, totalsize, modulus, offset, i, w). nat (INT_MAX - i))") auto

text \<open>The recursive equations are unfolded by hand, one iteration at a time.\<close>

declare store_pattern.simps [simp del] count_differing.simps [simp del]
  main_phase1.simps [simp del] main_phase2.simps [simp del]

text \<open>Ranges such as \<open>[0..<4096]\<close> are never written out element by element.\<close>

declare upt_rec_numeral [simp del]

text \<open>
  \<^verbatim>\<open>off_t offset = 1024*1024;\<close>, the first loop, then
  \<^verbatim>\<open>if (offset != totalsize) { offset = offset / 2; off_t modulo = offset; ... }\<close>
  with the second loop, then \<^verbatim>\<open>exit(0)\<close>.
\<close>

definition main_probing :: "'d syscalls \<Rightarrow> nat \<Rightarrow> (int \<Rightarrow> frame) \<Rightarrow> 64 word \<Rightarrow> 'd world \<Rightarrow> (failure + unit) \<times> 'd world" where
  "main_probing ops blocksize stack totalsize w =
    bind (main_phase1 ops blocksize stack totalsize (1024 * 1024) 0 w) (\<lambda>(offset, i) w1.
      if to_u64 offset \<noteq> uint totalsize
      then main_phase2 ops blocksize stack totalsize (c_div offset 2) (c_div offset 2) i w1
      else (Inr (), w1))"

section \<open>Simulated devices\<close>

text \<open>
  A simulated device is a memory of bytes indexed by device address. Its calls never
  fail, except that \<^verbatim>\<open>lseek\<close> refuses a negative offset. \<open>store\<close> says what a write
  does to the memory; every transfer moves \<open>short\<close> bytes fewer than requested.
\<close>

type_synonym memory = "int \<Rightarrow> byte"

definition load :: "memory \<Rightarrow> int \<Rightarrow> nat \<Rightarrow> byte list" where
  "load m x n = map (\<lambda>k. m (x + int k)) [0..<n]"

definition poke :: "int \<Rightarrow> byte list \<Rightarrow> memory \<Rightarrow> memory" where
  "poke x data m = (\<lambda>y. if x \<le> y \<and> y < x + int (length data) then data ! nat (y - x) else m y)"

definition sim_ops :: "(int \<Rightarrow> byte list \<Rightarrow> memory \<Rightarrow> memory) \<Rightarrow> nat \<Rightarrow> memory syscalls" where
  "sim_ops store short =
    \<lparr>sys_open = (\<lambda>m. (Inr (), m)),
     sys_lseek = (\<lambda>m x. (if x < 0 then - 1 else x, m)),
     sys_read = (\<lambda>m x n. (Inr (load m x (n - short)), m)),
     sys_write = (\<lambda>m x data. (Inr (length data - short), store x (take (length data - short) data) m)),
     sys_fsync = (\<lambda>m. (0, m)),
     sys_close = (\<lambda>m. (0, m))\<rparr>"

text \<open>A perfect device stores what is written, where it is written.\<close>

definition perfect_ops :: "memory syscalls" where
  "perfect_ops = sim_ops poke 0"

text \<open>
  A device whose writes at or above \<open>M\<close> land at the address written and also \<open>M\<close> bytes
  below it.
\<close>

definition mirror_store :: "int \<Rightarrow> int \<Rightarrow> byte list \<Rightarrow> memory \<Rightarrow> memory" where
  "mirror_store M x data m = (if M \<le> x then poke x data (poke (x - M) data m) else poke x data m)"

text \<open>A device that stores every byte one higher than the byte written.\<close>

definition garble_store :: "int \<Rightarrow> byte list \<Rightarrow> memory \<Rightarrow> memory" where
  "garble_store x data m = poke x (map (\<lambda>b. b + 1) data) m"

definition garble_ops :: "memory syscalls" where
  "garble_ops = sim_ops garble_store 0"

definition mirror_ops :: "int \<Rightarrow> memory syscalls" where
  "mirror_ops M = sim_ops (mirror_store M) 0"

text \<open>A stack and a device that hold the same byte everywhere.\<close>

definition const_frame :: "byte \<Rightarrow> frame" where
  "const_frame b = \<lparr>prevdata0 = (\<lambda>n. b), originalreaddata0 = (\<lambda>n. b), writedata0 = (\<lambda>n. b), readbackdata0 = (\<lambda>n. b)\<rparr>"

definition const_mem :: "byte \<Rightarrow> memory" where
  "const_mem b = (\<lambda>x. b)"

text \<open>A device memory that holds \<open>lo\<close> below address \<open>M\<close> and \<open>hi\<close> from \<open>M\<close> on.\<close>

definition split_mem :: "int \<Rightarrow> byte \<Rightarrow> byte \<Rightarrow> memory" where
  "split_mem M lo hi = (\<lambda>x. if x < M then lo else hi)"

section \<open>Observations on a run\<close>

text \<open>The calls of \<open>readbacktest\<close> in a log: address, modulus and sequence number.\<close>

fun probes :: "event list \<Rightarrow> (int \<times> int \<times> int) list" where
  "probes [] = []"
| "probes (Probe a m i # es) = (a, m, i) # probes es"
| "probes (Rd x n r # es) = probes es"
| "probes (Wr x d r # es) = probes es"

text \<open>The writes issued in a log: file position and bytes.\<close>

fun writes :: "event list \<Rightarrow> (int \<times> byte list) list" where
  "writes [] = []"
| "writes (Probe a m i # es) = writes es"
| "writes (Rd x n r # es) = writes es"
| "writes (Wr x d r # es) = (x, d) # writes es"

text \<open>A transfer that moved fewer bytes than requested.\<close>

fun short_transfer :: "event \<Rightarrow> bool" where
  "short_transfer (Rd x n (Inr data)) = (length data < n)"
| "short_transfer (Wr x d (Inr k)) = (k < length d)"
| "short_transfer e = False"

text \<open>The failures of the transport: every exit of \<open>checkedread\<close> and \<open>checkedwrite\<close>.\<close>

fun transport :: "failure \<Rightarrow> bool" where
  "transport (TestFailed m c) = False"
| "transport Undefined = False"
| "transport f = True"

text \<open>The content of the device at an address: what a read of it returns.\<close>

definition content :: "'d syscalls \<Rightarrow> 'd \<Rightarrow> int \<Rightarrow> nat \<Rightarrow> errno + byte list" where
  "content ops d x n = fst (sys_read ops d x n)"

text \<open>
  A device is \<open>inert\<close> when only a write changes its state, and \<open>faithful\<close> when the
  bytes a complete write stored at a position are the bytes a read of that position
  returns.
\<close>

definition inert :: "'d syscalls \<Rightarrow> bool" where
  "inert ops =
    ((\<forall>d. snd (sys_open ops d) = d) \<and> (\<forall>d x. snd (sys_lseek ops d x) = d) \<and>
     (\<forall>d x n. snd (sys_read ops d x n) = d) \<and> (\<forall>d. snd (sys_fsync ops d) = d) \<and>
     (\<forall>d. snd (sys_close ops d) = d))"

definition faithful :: "'d syscalls \<Rightarrow> bool" where
  "faithful ops =
    (\<forall>d x data. fst (sys_write ops d x data) = Inr (length data) \<longrightarrow>
       content ops (snd (sys_write ops d x data)) x (length data) = Inr data)"

text \<open>
  The exits for a short transfer, and two relations between the log before and after a
  step: \<open>clean_ext\<close> when the step added no short transfer, \<open>fatal_ext\<close> when it added
  none, or added one last and exits with a short-transfer failure.
\<close>

definition short_failure :: "failure + 'a \<Rightarrow> bool" where
  "short_failure r = (\<exists>n. r = Inl (ShortRead n) \<or> r = Inl (ShortWrite n))"

definition clean_ext :: "event list \<Rightarrow> event list \<Rightarrow> bool" where
  "clean_ext l l' = (\<exists>es. l' = l @ es \<and> (\<forall>e\<in>set es. \<not> short_transfer e))"

definition fatal_ext :: "event list \<Rightarrow> failure + 'a \<Rightarrow> event list \<Rightarrow> bool" where
  "fatal_ext l r l' =
    (clean_ext l l' \<or> (\<exists>es e. l' = l @ es @ [e] \<and> (\<forall>e\<in>set es. \<not> short_transfer e) \<and> short_failure r))"

text \<open>
  The probes the second loop of \<^verbatim>\<open>main\<close> makes when every probe returns: the loop
  with the device left out.
\<close>

function phase2_schedule :: "64 word \<Rightarrow> int \<Rightarrow> int \<Rightarrow> int \<Rightarrow> (int \<times> int \<times> int) list" where
  "phase2_schedule totalsize modulus offset i =
    (if 1024 * 1024 < to_u64 (uint totalsize - to_u64 offset) \<and> i < INT_MAX
     then (to_off_t (to_u64 (to_u64 offset + uint totalsize) div 2), modulus, i + 1) #
          phase2_schedule totalsize modulus (to_off_t (to_u64 (to_u64 offset + uint totalsize) div 2)) (i + 1)
     else [])"
  by pat_completeness auto
termination
  by (relation "measure (\<lambda>(totalsize, modulus, offset, i). nat (INT_MAX - i))") auto

declare phase2_schedule.simps [simp del]

section \<open>Arithmetic of the conversions\<close>

lemma c_rem_mod: "c_rem x 256 mod 256 = x mod 256"
proof (cases "0 \<le> x")
  case True
  then show ?thesis by (cases "x = 0") (simp_all add: c_rem_def)
next
  case False
  then have "c_rem x 256 = - ((- x) mod 256)" by (simp add: c_rem_def)
  then show ?thesis by (simp add: mod_minus_eq)
qed

lemma c_rem_byte: "(word_of_int (c_rem x 256) :: byte) = word_of_int (x mod 256)"
  by (simp add: word_of_int_eq_iff take_bit_eq_mod c_rem_mod)

section \<open>The pattern loop\<close>

lemma store_pattern_eq:
  "store_pattern i bs n buf =
    (if bs \<le> n \<or> i + int bs - 1 \<le> INT_MAX
     then Some (\<lambda>k. if n \<le> k \<and> k < bs then word_of_int ((i + int k) mod 256) else buf k)
     else None)"
proof (induction i bs n buf rule: store_pattern.induct)
  case (1 i bs n buf)
  show ?case
  proof (cases "n < bs")
    case False
    then show ?thesis by (subst store_pattern.simps) (auto simp: fun_eq_iff)
  next
    case lt: True
    show ?thesis
    proof (cases "INT_MAX < i + int n")
      case True
      with lt show ?thesis by (subst store_pattern.simps) (auto simp: fun_eq_iff)
    next
      case False
      let ?buf' = "buf(n := word_of_int (c_rem (i + int n) 256))"
      have step: "store_pattern i bs n buf = store_pattern i bs (Suc n) ?buf'"
        by (subst store_pattern.simps) (simp add: lt False)
      have same: "(\<lambda>k. if Suc n \<le> k \<and> k < bs then word_of_int ((i + int k) mod 256) else ?buf' k)
          = (\<lambda>k. if n \<le> k \<and> k < bs then word_of_int ((i + int k) mod 256) else buf k)"
        using lt by (auto simp: fun_eq_iff c_rem_byte not_less_eq_eq)
      have "bs \<le> Suc n \<Longrightarrow> i + int bs - 1 \<le> INT_MAX"
        using lt False by simp
      then show ?thesis
        unfolding step "1.IH" [OF lt False] same using lt by auto
    qed
  qed
qed

lemma store_pattern_map:
  "store_pattern i bs 0 buf = Some wd \<Longrightarrow>
     map wd [0..<bs] = map (\<lambda>n. word_of_int ((i + int n) mod 256)) [0..<bs]"
  by (auto simp: store_pattern_eq split: if_splits)

section \<open>Sequencing and the checked transfers\<close>

lemma bindE:
  assumes "bind m f = (r, w')"
  obtains (stop) e where "m = (Inl e, w')" "r = Inl e"
        | (go) x w1 where "m = (Inr x, w1)" "f x w1 = (r, w')"
  using assms by (auto simp: bind_def split: prod.splits sum.splits)

lemma map_fill: "length d = n \<Longrightarrow> map (fill buf d) [0..<n] = d"
  by (auto simp: fill_def intro: nth_equalityI)

lemma open_failure_transport: "transport (open_failure e)"
  by (cases e) simp_all

lemma checkedread_Inr:
  "checkedread ops x n w = (Inr d, w1) \<Longrightarrow> log w1 = log w @ [Rd x n (Inr d)] \<and> length d = n"
  by (auto simp: checkedread_def Let_def split: prod.splits sum.splits if_splits)

lemma checkedread_Inl:
  "checkedread ops x n w = (Inl e, w1) \<Longrightarrow>
     transport e \<and> (log w1 = log w \<or>
       (\<exists>res. log w1 = log w @ [Rd x n res] \<and> (short_transfer (Rd x n res) \<longrightarrow> (\<exists>k. e = ShortRead k))))"
  by (auto simp: checkedread_def Let_def open_failure_transport split: prod.splits sum.splits if_splits)

lemma checkedwrite_Inr:
  "checkedwrite ops x buf n w = (Inr u, w1) \<Longrightarrow> log w1 = log w @ [Wr x (map buf [0..<n]) (Inr n)]"
  by (auto simp: checkedwrite_def Let_def split: prod.splits sum.splits if_splits)

lemma checkedwrite_Inl:
  "checkedwrite ops x buf n w = (Inl e, w1) \<Longrightarrow>
     transport e \<and> (log w1 = log w \<or>
       (\<exists>res. log w1 = log w @ [Wr x (map buf [0..<n]) res] \<and>
          (short_transfer (Wr x (map buf [0..<n]) res) \<longrightarrow> (\<exists>k. e = ShortWrite k))))"
  by (auto simp: checkedwrite_def Let_def open_failure_transport split: prod.splits sum.splits if_splits)

lemmas transfer_logs = checkedread_Inr checkedread_Inl checkedwrite_Inr checkedwrite_Inl

lemma checkedread_inert:
  "inert ops \<Longrightarrow> checkedread ops x n w = (r, w1) \<Longrightarrow>
     dev w1 = dev w \<and> (\<forall>d. r = Inr d \<longrightarrow> content ops (dev w) x n = Inr d)"
  unfolding checkedread_def Let_def inert_def content_def
  by (auto simp: prod_eq_iff split: prod.splits sum.splits if_splits)

lemma checkedwrite_inert:
  "inert ops \<Longrightarrow> checkedwrite ops x buf n w = (Inr u, w1) \<Longrightarrow>
     fst (sys_write ops (dev w) x (map buf [0..<n])) = Inr n \<and>
     dev w1 = snd (sys_write ops (dev w) x (map buf [0..<n]))"
  unfolding checkedwrite_def Let_def inert_def
  by (auto simp: prod_eq_iff split: prod.splits sum.splits if_splits)

section \<open>The shape of a probe\<close>

text \<open>
  Whatever the device does, the transfers of one call of \<open>readbacktest\<close> are an initial
  part of a fixed list of seven: two reads, the write of the pattern, the read back,
  the write of the original bytes, the second read of the shadow block and one more
  write.
\<close>

lemma readbacktest_log:
  assumes "readbacktest ops bs fr address modulus i w = (r, w')"
  shows "\<exists>es r1 r2 r3 r4 r5 r6 r7 d1 d2. log w' = log w @ Probe address modulus i # es \<and>
     prefix es [Rd (shadow bs address modulus) bs r1, Rd (to_off_t (address - int bs)) bs r2,
        Wr (to_off_t (address - int bs)) (map (\<lambda>n. word_of_int ((i + int n) mod 256)) [0..<bs]) r3,
        Rd (to_off_t (address - int bs)) bs r4,
        Wr (to_off_t (address - int bs)) d2 r5,
        Rd (shadow bs address modulus) bs r6,
        Wr (to_off_t (address - int bs)) d1 r7]"
  using assms
  apply (simp add: readbacktest_def Let_def split: if_splits)
    apply force
   apply force
  apply (elim bindE)
    apply (force dest!: transfer_logs)
   apply (force dest!: transfer_logs)
  apply (simp split: option.splits add: Let_def)
   apply (force dest!: transfer_logs)
  apply (elim bindE)
  apply (force dest!: transfer_logs store_pattern_map simp: map_fill split: if_splits)+
  done

text \<open>
  A call that ends at its last line (it returns, or exits because of the counts) went
  through every step.
\<close>

lemma readbacktest_completed:
  assumes "readbacktest ops bs fr address modulus i w = (r, w')"
    and "\<forall>f. r = Inl f \<longrightarrow> \<not> transport f \<and> f \<noteq> Undefined"
  shows "\<exists>d1 w1 d2 w2 wd w3 d4 w4 w5 d6 w6.
    bs \<le> MAXBLOCKSIZE \<and>
    checkedread ops (shadow bs address modulus) bs (w\<lparr>log := log w @ [Probe address modulus i]\<rparr>) = (Inr d1, w1) \<and>
    checkedread ops (to_off_t (address - int bs)) bs w1 = (Inr d2, w2) \<and>
    store_pattern i bs 0 (writedata0 fr) = Some wd \<and>
    checkedwrite ops (to_off_t (address - int bs)) wd bs w2 = (Inr (), w3) \<and>
    checkedread ops (to_off_t (address - int bs)) bs w3 = (Inr d4, w4) \<and>
    checkedwrite ops (to_off_t (address - int bs)) (fill (originalreaddata0 fr) d2) bs w4 = (Inr (), w5) \<and>
    checkedread ops (shadow bs address modulus) bs w5 = (Inr d6, w6) \<and>
    (if count_differing (fill (fill (readbackdata0 fr) d4) d6) (fill (prevdata0 fr) d1) bs 0 0 \<noteq> 0
     then checkedwrite ops (to_off_t (address - int bs)) (fill (prevdata0 fr) d1) bs w6 = (Inr (), w')
     else w' = w6) \<and>
    r = (if count_differing (fill (readbackdata0 fr) d4) wd MAXBLOCKSIZE 0 0 \<noteq> 0 \<or>
            count_differing (fill (fill (readbackdata0 fr) d4) d6) (fill (prevdata0 fr) d1) bs 0 0 \<noteq> 0
         then Inl (TestFailed (count_differing (fill (readbackdata0 fr) d4) wd MAXBLOCKSIZE 0 0)
                 (count_differing (fill (fill (readbackdata0 fr) d4) d6) (fill (prevdata0 fr) d1) bs 0 0))
         else Inr ())"
  using assms
  apply (simp add: readbacktest_def Let_def split: if_splits)
    apply force
   apply force
  apply (elim bindE)
    apply (force dest!: checkedread_Inl)
   apply (force dest!: checkedread_Inl)
  apply (simp split: option.splits add: Let_def)
   apply force
  apply (elim bindE)
       apply (force dest!: checkedwrite_Inl)
      apply (force dest!: checkedread_Inl)
     apply (force dest!: checkedwrite_Inl)
    apply (force dest!: checkedread_Inl)
   apply (force dest!: checkedwrite_Inl split: if_splits)
  apply (auto split: if_splits)
  done

text \<open>
  C9. For every sequence number \<open>i\<close> whose sums \<open>i + n\<close> stay within \<^verbatim>\<open>int\<close>, the loop
  produces a pattern, byte \<open>n\<close> of it is \<open>(i + n) mod 256\<close> for every \<open>n\<close> below the block
  size, and two calls with the same \<open>i\<close> and block size produce the same bytes whatever
  their stack held before.
\<close>

theorem pattern_deterministic:
  assumes "i + int blocksize - 1 \<le> INT_MAX"
  shows "\<exists>wd wd'. store_pattern i blocksize 0 buf = Some wd \<and>
           store_pattern i blocksize 0 buf' = Some wd' \<and>
           (\<forall>n<blocksize. uint (wd n) = (i + int n) mod 256 \<and> wd' n = wd n)"
proof -
  have "uint (word_of_int ((i + int n) mod 256) :: byte) = (i + int n) mod 256" for n
    by (simp add: uint_word_of_int take_bit_eq_mod)
  with assms show ?thesis
    by (simp add: store_pattern_eq)
qed

theorem pattern_deterministic_witness:
  "7 + int 512 - 1 \<le> INT_MAX \<and>
   (\<exists>wd wd'. store_pattern 7 512 0 (\<lambda>n. 0) = Some wd \<and>
      store_pattern 7 512 0 (\<lambda>n. 1) = Some wd' \<and>
      (\<forall>n<512. uint (wd n) = (7 + int n) mod 256 \<and> wd' n = wd n))"
proof -
  have h: "7 + int 512 - 1 \<le> INT_MAX" by (simp add: INT_MAX_def)
  show ?thesis
    using h pattern_deterministic [OF h, of "\<lambda>n. 0" "\<lambda>n. 1"] by simp
qed

section \<open>Probes on simulated devices\<close>

lemma count_differing_eq:
  "count_differing x y limit n c = c + length (filter (\<lambda>k. x k \<noteq> y k) [n..<limit])"
proof (induction x y limit n c rule: count_differing.induct)
  case (1 x y limit n count)
  show ?case
  proof (cases "n < limit")
    case True
    then show ?thesis
      using 1 by (subst count_differing.simps) (simp add: upt_conv_Cons)
  next
    case False
    then show ?thesis by (subst count_differing.simps) simp
  qed
qed

lemma length_load [simp]: "length (load m x n) = n"
  by (simp add: load_def)

lemma nth_load [simp]: "k < n \<Longrightarrow> load m x n ! k = m (x + int k)"
  by (simp add: load_def)

lemma checkedread_sim:
  "checkedread (sim_ops store short) x n w =
    (if x < 0 then (Inl SeekFailed, w)
     else if n - short \<noteq> n
       then (Inl (ShortRead (n - short)), \<lparr>dev = dev w, log = log w @ [Rd x n (Inr (load (dev w) x (n - short)))]\<rparr>)
       else (Inr (load (dev w) x n), \<lparr>dev = dev w, log = log w @ [Rd x n (Inr (load (dev w) x n))]\<rparr>))"
  by (simp add: checkedread_def sim_ops_def Let_def)

lemma checkedwrite_sim:
  "checkedwrite (sim_ops store short) x buf n w =
    (if x < 0 then (Inl SeekFailed, w)
     else if n - short \<noteq> n
       then (Inl (ShortWrite (n - short)),
             \<lparr>dev = store x (take (n - short) (map buf [0..<n])) (dev w),
              log = log w @ [Wr x (map buf [0..<n]) (Inr (n - short))]\<rparr>)
       else (Inr (),
             \<lparr>dev = store x (map buf [0..<n]) (dev w),
              log = log w @ [Wr x (map buf [0..<n]) (Inr n)]\<rparr>))"
  by (simp add: checkedwrite_def sim_ops_def Let_def)


lemma store_pattern_fill:
  "i + int bs - 1 \<le> INT_MAX \<Longrightarrow>
     store_pattern i bs 0 buf = Some (fill buf (map (\<lambda>n. word_of_int ((i + int n) mod 256)) [0..<bs]))"
  by (simp add: store_pattern_eq fill_def fun_eq_iff)

lemma map_fill_upt: "map (fill buf d) [0..<length d] = d"
  by (simp add: map_fill)

lemma filter_fill_nth:
  "length d = n \<Longrightarrow> length e = n \<Longrightarrow>
     filter (\<lambda>k. fill (fill b c) d k \<noteq> fill b' e k) [0..<n] = filter (\<lambda>k. d ! k \<noteq> e ! k) [0..<n]"
  by (rule filter_cong) (auto simp: fill_def)

lemma readbacktest_sim:
  assumes "modulus \<noteq> 0" "0 \<le> to_off_t (address - int bs)" "0 \<le> shadow bs address modulus"
    "bs \<le> MAXBLOCKSIZE" "i + int bs - 1 \<le> INT_MAX"
  shows "readbacktest (sim_ops store 0) bs fr address modulus i w =
     (let a = to_off_t (address - int bs); old = shadow bs address modulus; m = dev w;
          prev = load m old bs; orig = load m a bs;
          pat = map (\<lambda>n. word_of_int ((i + int n) mod 256)) [0..<bs];
          m1 = store a pat m; rb = load m1 a bs;
          mismatch = length (filter (\<lambda>n. fill (readbackdata0 fr) rb n \<noteq> fill (writedata0 fr) pat n) [0..<MAXBLOCKSIZE]);
          m2 = store a orig m1; rb2 = load m2 old bs;
          corruption = length (filter (\<lambda>n. rb2 ! n \<noteq> prev ! n) [0..<bs]);
          es = [Probe address modulus i, Rd old bs (Inr prev), Rd a bs (Inr orig), Wr a pat (Inr bs),
                Rd a bs (Inr rb), Wr a orig (Inr bs), Rd old bs (Inr rb2)]
      in if corruption \<noteq> 0
         then (Inl (TestFailed mismatch corruption), \<lparr>dev = store a prev m2, log = log w @ es @ [Wr a prev (Inr bs)]\<rparr>)
         else (if mismatch \<noteq> 0 then Inl (TestFailed mismatch 0) else Inr (), \<lparr>dev = m2, log = log w @ es\<rparr>))"
proof -
  have neg: "\<not> (to_off_t (address - int bs) = OFF_MIN \<and> modulus = - 1)"
    using assms(2) by (auto simp: OFF_MIN_def)
  show ?thesis
    using assms neg
    by (simp add: readbacktest_def Let_def bind_def checkedread_sim checkedwrite_sim
        store_pattern_fill count_differing_eq map_fill filter_fill_nth)
qed

lemma load_poke_same: "length d = n \<Longrightarrow> load (poke x d m) x n = d"
  by (auto simp: load_def poke_def intro: nth_equalityI)

lemma load_poke_disjoint:
  "y + int n \<le> x \<or> x + int (length d) \<le> y \<Longrightarrow> load (poke x d m) y n = load m y n"
  by (auto simp: load_def poke_def)

lemma poke_load_poke: "length d = n \<Longrightarrow> poke x (load m x n) (poke x d m) = m"
  by (auto simp: load_def poke_def fun_eq_iff)

lemma filter_fill_split:
  assumes "length d = bs" "length e = bs" "bs \<le> L"
  shows "length (filter (\<lambda>n. fill b d n \<noteq> fill b' e n) [0..<L]) =
         length (filter (\<lambda>n. d ! n \<noteq> e ! n) [0..<bs]) + length (filter (\<lambda>n. b n \<noteq> b' n) [bs..<L])"
proof -
  have "[0..<L] = [0..<bs] @ [bs..<L]"
    using assms(3) by (metis le_add_diff_inverse upt_add_eq_append zero_le)
  moreover have "filter (\<lambda>n. fill b d n \<noteq> fill b' e n) [0..<bs] = filter (\<lambda>n. d ! n \<noteq> e ! n) [0..<bs]"
    using assms(1,2) by (intro filter_cong) (auto simp: fill_def)
  moreover have "filter (\<lambda>n. fill b d n \<noteq> fill b' e n) [bs..<L] = filter (\<lambda>n. b n \<noteq> b' n) [bs..<L]"
    using assms(1,2) by (intro filter_cong) (auto simp: fill_def)
  ultimately show ?thesis by simp
qed

lemma length_filter_all: "(\<forall>k. a \<le> k \<and> k < b \<longrightarrow> P k) \<Longrightarrow> length (filter P [a..<b]) = b - a"
  by simp

lemma length_filter_none: "(\<forall>k. a \<le> k \<and> k < b \<longrightarrow> \<not> P k) \<Longrightarrow> length (filter P [a..<b]) = 0"
  by (simp add: filter_empty_conv)

lemma load_neq: "m x \<noteq> m y \<Longrightarrow> 0 < n \<Longrightarrow> load m x n \<noteq> load m y n"
proof
  assume h: "m x \<noteq> m y" "0 < n" "load m x n = load m y n"
  then have "load m x n ! 0 = load m y n ! 0" by simp
  with h(1,2) show False by simp
qed

lemma readbacktest_perfect:
  assumes "modulus \<noteq> 0" "0 \<le> to_off_t (address - int bs)" "0 \<le> shadow bs address modulus"
    "bs \<le> MAXBLOCKSIZE" "i + int bs - 1 \<le> INT_MAX"
  shows "readbacktest perfect_ops bs fr address modulus i w =
     (let a = to_off_t (address - int bs); old = shadow bs address modulus; m = dev w;
          prev = load m old bs; orig = load m a bs;
          pat = map (\<lambda>n. word_of_int ((i + int n) mod 256)) [0..<bs];
          mismatch = length (filter (\<lambda>n. readbackdata0 fr n \<noteq> writedata0 fr n) [bs..<MAXBLOCKSIZE])
      in (if mismatch \<noteq> 0 then Inl (TestFailed mismatch 0) else Inr (),
          \<lparr>dev = m, log = log w @ [Probe address modulus i, Rd old bs (Inr prev), Rd a bs (Inr orig),
             Wr a pat (Inr bs), Rd a bs (Inr pat), Wr a orig (Inr bs), Rd old bs (Inr prev)]\<rparr>))"
  unfolding perfect_ops_def readbacktest_sim [OF assms]
  using assms(4)
  by (simp add: Let_def load_poke_same poke_load_poke filter_fill_split)

section \<open>The log of a completed probe\<close>

lemma readbacktest_completed_log:
  assumes "readbacktest ops bs fr address modulus i w = (r, w')"
    and "\<forall>f. r = Inl f \<longrightarrow> \<not> transport f \<and> f \<noteq> Undefined"
  shows "\<exists>d1 d2 d4 d6.
    length d1 = bs \<and> length d2 = bs \<and> length d4 = bs \<and> length d6 = bs \<and> bs \<le> MAXBLOCKSIZE \<and>
    log w' = log w @
      [Probe address modulus i,
       Rd (shadow bs address modulus) bs (Inr d1),
       Rd (to_off_t (address - int bs)) bs (Inr d2),
       Wr (to_off_t (address - int bs)) (map (\<lambda>n. word_of_int ((i + int n) mod 256)) [0..<bs]) (Inr bs),
       Rd (to_off_t (address - int bs)) bs (Inr d4),
       Wr (to_off_t (address - int bs)) d2 (Inr bs),
       Rd (shadow bs address modulus) bs (Inr d6)] @
      (if d6 = d1 then [] else [Wr (to_off_t (address - int bs)) d1 (Inr bs)]) \<and>
    r = (if length (filter (\<lambda>n. d4 ! n \<noteq> (word_of_int ((i + int n) mod 256) :: byte)) [0..<bs]) +
            length (filter (\<lambda>n. readbackdata0 fr n \<noteq> writedata0 fr n) [bs..<MAXBLOCKSIZE]) = 0 \<and> d6 = d1
         then Inr ()
         else Inl (TestFailed
                (length (filter (\<lambda>n. d4 ! n \<noteq> (word_of_int ((i + int n) mod 256) :: byte)) [0..<bs]) +
                 length (filter (\<lambda>n. readbackdata0 fr n \<noteq> writedata0 fr n) [bs..<MAXBLOCKSIZE]))
                (length (filter (\<lambda>n. d6 ! n \<noteq> d1 ! n) [0..<bs]))))"
proof -
  from readbacktest_completed [OF assms]
  obtain d1 w1 d2 w2 wd w3 d4 w4 w5 d6 w6 where
    bs: "bs \<le> MAXBLOCKSIZE" and
    s1: "checkedread ops (shadow bs address modulus) bs (w\<lparr>log := log w @ [Probe address modulus i]\<rparr>) = (Inr d1, w1)" and
    s2: "checkedread ops (to_off_t (address - int bs)) bs w1 = (Inr d2, w2)" and
    sp: "store_pattern i bs 0 (writedata0 fr) = Some wd" and
    s3: "checkedwrite ops (to_off_t (address - int bs)) wd bs w2 = (Inr (), w3)" and
    s4: "checkedread ops (to_off_t (address - int bs)) bs w3 = (Inr d4, w4)" and
    s5: "checkedwrite ops (to_off_t (address - int bs)) (fill (originalreaddata0 fr) d2) bs w4 = (Inr (), w5)" and
    s6: "checkedread ops (shadow bs address modulus) bs w5 = (Inr d6, w6)" and
    s7: "if count_differing (fill (fill (readbackdata0 fr) d4) d6) (fill (prevdata0 fr) d1) bs 0 0 \<noteq> 0
         then checkedwrite ops (to_off_t (address - int bs)) (fill (prevdata0 fr) d1) bs w6 = (Inr (), w')
         else w' = w6" and
    r: "r = (if count_differing (fill (readbackdata0 fr) d4) wd MAXBLOCKSIZE 0 0 \<noteq> 0 \<or>
            count_differing (fill (fill (readbackdata0 fr) d4) d6) (fill (prevdata0 fr) d1) bs 0 0 \<noteq> 0
         then Inl (TestFailed (count_differing (fill (readbackdata0 fr) d4) wd MAXBLOCKSIZE 0 0)
                 (count_differing (fill (fill (readbackdata0 fr) d4) d6) (fill (prevdata0 fr) d1) bs 0 0))
         else Inr ())"
    by blast
  let ?pat = "map (\<lambda>n. word_of_int ((i + int n) mod 256) :: byte) [0..<bs]"
  note l1 = checkedread_Inr [OF s1] and l2 = checkedread_Inr [OF s2] and l3 = checkedwrite_Inr [OF s3]
    and l4 = checkedread_Inr [OF s4] and l5 = checkedwrite_Inr [OF s5] and l6 = checkedread_Inr [OF s6]
  have wd: "wd = fill (writedata0 fr) ?pat"
    using sp by (auto simp: store_pattern_eq fill_def fun_eq_iff split: if_splits)
  have corr: "count_differing (fill (fill (readbackdata0 fr) d4) d6) (fill (prevdata0 fr) d1) bs 0 0
      = length (filter (\<lambda>n. d6 ! n \<noteq> d1 ! n) [0..<bs])"
    using l1 l6 by (simp add: count_differing_eq filter_fill_nth)
  have mism: "count_differing (fill (readbackdata0 fr) d4) wd MAXBLOCKSIZE 0 0
      = length (filter (\<lambda>n. d4 ! n \<noteq> (word_of_int ((i + int n) mod 256) :: byte)) [0..<bs]) +
        length (filter (\<lambda>n. readbackdata0 fr n \<noteq> writedata0 fr n) [bs..<MAXBLOCKSIZE])"
  proof -
    have "filter (\<lambda>n. d4 ! n \<noteq> ?pat ! n) [0..<bs] = filter (\<lambda>n. d4 ! n \<noteq> word_of_int ((i + int n) mod 256)) [0..<bs]"
      by (rule filter_cong) auto
    then show ?thesis
      using l4 bs by (simp add: wd count_differing_eq filter_fill_split [where bs = bs])
  qed
  have eq: "(length (filter (\<lambda>n. d6 ! n \<noteq> d1 ! n) [0..<bs]) = 0) = (d6 = d1)"
  proof -
    have len: "length d6 = bs" "length d1 = bs" using l1 l6 by simp_all
    have A: "(length (filter (\<lambda>n. d6 ! n \<noteq> d1 ! n) [0..<bs]) = 0) = (\<forall>n<bs. d6 ! n = d1 ! n)"
      by (auto simp: filter_empty_conv)
    have B: "(d6 = d1) = (\<forall>n<bs. d6 ! n = d1 ! n)"
      using len by (metis nth_equalityI)
    show ?thesis unfolding A B ..
  qed
  have logs: "log w6 = log w @
      [Probe address modulus i,
       Rd (shadow bs address modulus) bs (Inr d1),
       Rd (to_off_t (address - int bs)) bs (Inr d2),
       Wr (to_off_t (address - int bs)) ?pat (Inr bs),
       Rd (to_off_t (address - int bs)) bs (Inr d4),
       Wr (to_off_t (address - int bs)) d2 (Inr bs),
       Rd (shadow bs address modulus) bs (Inr d6)]"
    using l1 l2 l3 l4 l5 l6 by (simp add: wd map_fill)
  have last: "log w' = log w6 @ (if d6 = d1 then [] else [Wr (to_off_t (address - int bs)) d1 (Inr bs)])"
  proof (cases "d6 = d1")
    case True
    with s7 corr eq show ?thesis by simp
  next
    case False
    with s7 corr eq have "checkedwrite ops (to_off_t (address - int bs)) (fill (prevdata0 fr) d1) bs w6 = (Inr (), w')"
      by simp
    from checkedwrite_Inr [OF this] l1 False show ?thesis by (simp add: map_fill)
  qed
  show ?thesis
    apply (rule exI [of _ d1], rule exI [of _ d2], rule exI [of _ d4], rule exI [of _ d6])
    using l1 l2 l4 l6 bs last logs r corr mism eq
    by auto
qed

section \<open>Runs on particular devices\<close>

lemma inert_sim: "inert (sim_ops store short)"
  by (simp add: inert_def sim_ops_def)

lemma faithful_perfect: "faithful perfect_ops"
  by (simp add: faithful_def perfect_ops_def sim_ops_def content_def load_poke_same)

lemma faithful_mirror: "faithful (mirror_ops M)"
  by (simp add: faithful_def mirror_ops_def sim_ops_def content_def mirror_store_def load_poke_same)

lemma content_sim: "content (sim_ops store 0) m x n = Inr (load m x n)"
  by (simp add: content_def sim_ops_def)

lemma map_succ_neq: "xs \<noteq> [] \<Longrightarrow> map (\<lambda>b. b + 1) xs \<noteq> (xs :: byte list)"
  by (cases xs) simp_all

lemma load_neq_Nil: "0 < n \<Longrightarrow> load m x n \<noteq> []"
  by (simp add: load_def)

text \<open>The first probe of the scheduler: address 1 MiB, modulus 512 KiB, block size 512.\<close>

lemma first_probe_addresses:
  "to_off_t (1048576 - int 512) = 1048064" "shadow 512 1048576 524288 = 523776"
  by (simp_all add: shadow_def c_rem_def to_off_t_def)

lemma first_probe_pre:
  "(524288::int) \<noteq> 0" "0 \<le> to_off_t (1048576 - int 512)" "0 \<le> shadow 512 1048576 524288"
  "512 \<le> MAXBLOCKSIZE" "0 + int 512 - 1 \<le> INT_MAX"
  by (simp_all add: to_off_t_def shadow_def c_rem_def MAXBLOCKSIZE_def INT_MAX_def)

text \<open>The second probe of the scheduler: address 2 MiB, modulus 1 MiB.\<close>

lemma second_probe_addresses:
  "to_off_t (2097152 - int 512) = 2096640" "shadow 512 2097152 1048576 = 1048064"
  by (simp_all add: shadow_def c_rem_def to_off_t_def)

lemma second_probe_pre:
  "(1048576::int) \<noteq> 0" "0 \<le> to_off_t (2097152 - int 512)" "0 \<le> shadow 512 2097152 1048576"
  "512 \<le> MAXBLOCKSIZE" "1 + int 512 - 1 \<le> INT_MAX"
  by (simp_all add: to_off_t_def shadow_def c_rem_def MAXBLOCKSIZE_def INT_MAX_def)

lemma perfect_run:
  "readbacktest perfect_ops 512 (const_frame 0) 1048576 524288 0 \<lparr>dev = const_mem 0, log = []\<rparr> =
    (Inr (),
     \<lparr>dev = const_mem 0,
      log = [Probe 1048576 524288 0,
             Rd 523776 512 (Inr (load (const_mem 0) 523776 512)),
             Rd 1048064 512 (Inr (load (const_mem 0) 1048064 512)),
             Wr 1048064 (map (\<lambda>n. word_of_int (int n mod 256)) [0..<512]) (Inr 512),
             Rd 1048064 512 (Inr (map (\<lambda>n. word_of_int (int n mod 256)) [0..<512])),
             Wr 1048064 (load (const_mem 0) 1048064 512) (Inr 512),
             Rd 523776 512 (Inr (load (const_mem 0) 523776 512))]\<rparr>)"
  unfolding readbacktest_perfect [OF first_probe_pre] first_probe_addresses
  by (simp add: Let_def const_frame_def)

lemma perfect_run_dirty_stack:
  "readbacktest perfect_ops 512
      \<lparr>prevdata0 = (\<lambda>n. 0), originalreaddata0 = (\<lambda>n. 0), writedata0 = (\<lambda>n. 0), readbackdata0 = (\<lambda>n. 1)\<rparr>
      1048576 524288 0 \<lparr>dev = const_mem 0, log = []\<rparr> =
    (Inl (TestFailed 3584 0),
     \<lparr>dev = const_mem 0,
      log = [Probe 1048576 524288 0,
             Rd 523776 512 (Inr (load (const_mem 0) 523776 512)),
             Rd 1048064 512 (Inr (load (const_mem 0) 1048064 512)),
             Wr 1048064 (map (\<lambda>n. word_of_int (int n mod 256)) [0..<512]) (Inr 512),
             Rd 1048064 512 (Inr (map (\<lambda>n. word_of_int (int n mod 256)) [0..<512])),
             Wr 1048064 (load (const_mem 0) 1048064 512) (Inr 512),
             Rd 523776 512 (Inr (load (const_mem 0) 523776 512))]\<rparr>)"
  unfolding readbacktest_perfect [OF first_probe_pre] first_probe_addresses
  by (simp add: Let_def MAXBLOCKSIZE_def)

lemma garble_run:
  "readbacktest garble_ops 512 (const_frame 0) 1048576 524288 0 \<lparr>dev = const_mem 0, log = []\<rparr> =
    (Inl (TestFailed 512 0),
     \<lparr>dev = garble_store 1048064 (load (const_mem 0) 1048064 512)
              (garble_store 1048064 (map (\<lambda>n. word_of_int (int n mod 256)) [0..<512]) (const_mem 0)),
      log = [Probe 1048576 524288 0,
             Rd 523776 512 (Inr (load (const_mem 0) 523776 512)),
             Rd 1048064 512 (Inr (load (const_mem 0) 1048064 512)),
             Wr 1048064 (map (\<lambda>n. word_of_int (int n mod 256)) [0..<512]) (Inr 512),
             Rd 1048064 512 (Inr (map (\<lambda>b. b + 1) (map (\<lambda>n. word_of_int (int n mod 256)) [0..<512]))),
             Wr 1048064 (load (const_mem 0) 1048064 512) (Inr 512),
             Rd 523776 512 (Inr (load (const_mem 0) 523776 512))]\<rparr>)"
proof -
  have rb: "load (garble_store 1048064 d m) 1048064 512 = map (\<lambda>b. b + 1) d" if "length d = 512" for d m
    using that by (simp add: garble_store_def load_poke_same)
  have rb2: "load (garble_store 1048064 d m) 523776 512 = load m 523776 512" if "length d = 512" for d m
    using that by (simp add: garble_store_def load_poke_disjoint)
  have diff: "\<forall>k. 0 \<le> k \<and> k < 512 \<longrightarrow>
      map (\<lambda>b. b + 1) (map (\<lambda>n. word_of_int (int n mod 256)) [0..<512]) ! k \<noteq>
      (map (\<lambda>n. word_of_int (int n mod 256)) [0..<512] ! k :: byte)"
    by simp
  show ?thesis
    unfolding garble_ops_def readbacktest_sim [OF first_probe_pre] first_probe_addresses
    by (simp add: Let_def rb rb2 filter_fill_split [where bs = 512] MAXBLOCKSIZE_def
        const_frame_def length_filter_all [OF diff] del: map_map)
qed

lemma mirror_run:
  "readbacktest (mirror_ops 1048576) 512 (const_frame 0) 2097152 1048576 1
      \<lparr>dev = split_mem 1048576 1 2, log = []\<rparr> =
    (Inl (TestFailed 0 512),
     \<lparr>dev = mirror_store 1048576 2096640 (load (split_mem 1048576 1 2) 1048064 512)
              (mirror_store 1048576 2096640 (load (split_mem 1048576 1 2) 2096640 512)
                (mirror_store 1048576 2096640 (map (\<lambda>n. word_of_int ((1 + int n) mod 256)) [0..<512])
                  (split_mem 1048576 1 2))),
      log = [Probe 2097152 1048576 1,
             Rd 1048064 512 (Inr (load (split_mem 1048576 1 2) 1048064 512)),
             Rd 2096640 512 (Inr (load (split_mem 1048576 1 2) 2096640 512)),
             Wr 2096640 (map (\<lambda>n. word_of_int ((1 + int n) mod 256)) [0..<512]) (Inr 512),
             Rd 2096640 512 (Inr (map (\<lambda>n. word_of_int ((1 + int n) mod 256)) [0..<512])),
             Wr 2096640 (load (split_mem 1048576 1 2) 2096640 512) (Inr 512),
             Rd 1048064 512 (Inr (load (split_mem 1048576 1 2) 2096640 512)),
             Wr 2096640 (load (split_mem 1048576 1 2) 1048064 512) (Inr 512)]\<rparr>)"
proof -
  have rb: "load (mirror_store 1048576 2096640 d m) 2096640 512 = d" if "length d = 512" for d m
    using that by (simp add: mirror_store_def load_poke_same)
  have rb2: "load (mirror_store 1048576 2096640 d m) 1048064 512 = d" if "length d = 512" for d m
    using that by (simp add: mirror_store_def load_poke_same load_poke_disjoint)
  have diff: "\<forall>k. 0 \<le> k \<and> k < 512 \<longrightarrow>
      load (split_mem 1048576 1 2) 2096640 512 ! k \<noteq> load (split_mem 1048576 1 2) 1048064 512 ! k"
    by (simp add: split_mem_def)
  have ne: "filter (\<lambda>n. load (split_mem 1048576 1 2) 2096640 512 ! n \<noteq>
      load (split_mem 1048576 1 2) 1048064 512 ! n) [0..<512] \<noteq> []"
    using length_filter_all [OF diff] by auto
  show ?thesis
    unfolding mirror_ops_def readbacktest_sim [OF second_probe_pre] second_probe_addresses
    by (simp add: Let_def rb rb2 filter_fill_split [where bs = 512] MAXBLOCKSIZE_def
        const_frame_def length_filter_all [OF diff] ne)
qed

section \<open>What one probe does to the device\<close>

lemma to_off_t_id: "OFF_MIN \<le> x \<Longrightarrow> x \<le> OFF_MAX \<Longrightarrow> to_off_t x = x"
  by (simp add: to_off_t_def OFF_MIN_def OFF_MAX_def)

lemma c_rem_nonneg: "0 \<le> a \<Longrightarrow> 0 < b \<Longrightarrow> c_rem a b = a mod b"
  by (cases "a = 0") (simp_all add: c_rem_def)

lemma probes_append [simp]: "probes (xs @ ys) = probes xs @ probes ys"
  by (induction xs rule: probes.induct) simp_all

lemma writes_append [simp]: "writes (xs @ ys) = writes xs @ writes ys"
  by (induction xs rule: writes.induct) simp_all

text \<open>
  C4 (the code departs from the claim). The claim: the mismatch count is the number of
  positions \<open>n < blocksize\<close> where the byte read back differs from the pattern byte.
  The first comparison loop of \<open>readbacktest\<close> runs to \<open>MAXBLOCKSIZE\<close>, not to the
  block size. On a perfect device with 512-byte blocks every byte read back equals the
  byte written, and the call still reports 3584 mismatches when the uninitialised tails
  of \<^verbatim>\<open>readbackdata\<close> and \<^verbatim>\<open>writedata\<close> differ; \<open>readbacktest_completed_log\<close> gives the
  count in general: the mismatches inside the block plus the differing stack bytes from
  \<open>blocksize\<close> to \<open>MAXBLOCKSIZE\<close>.
\<close>

theorem mismatch_counts_beyond_block:
  "fst (readbacktest perfect_ops 512
      \<lparr>prevdata0 = (\<lambda>n. 0), originalreaddata0 = (\<lambda>n. 0), writedata0 = (\<lambda>n. 0), readbackdata0 = (\<lambda>n. 1)\<rparr>
      1048576 524288 0 \<lparr>dev = const_mem 0, log = []\<rparr>) = Inl (TestFailed 3584 0) \<and>
   drop 3 (log (snd (readbacktest perfect_ops 512
      \<lparr>prevdata0 = (\<lambda>n. 0), originalreaddata0 = (\<lambda>n. 0), writedata0 = (\<lambda>n. 0), readbackdata0 = (\<lambda>n. 1)\<rparr>
      1048576 524288 0 \<lparr>dev = const_mem 0, log = []\<rparr>))) =
     [Wr 1048064 (map (\<lambda>n. word_of_int (int n mod 256)) [0..<512]) (Inr 512),
      Rd 1048064 512 (Inr (map (\<lambda>n. word_of_int (int n mod 256)) [0..<512])),
      Wr 1048064 (load (const_mem 0) 1048064 512) (Inr 512),
      Rd 523776 512 (Inr (load (const_mem 0) 523776 512))]"
  by (simp add: perfect_run_dirty_stack)

text \<open>So a perfect device with 512-byte blocks can make the process exit with status -1.\<close>

theorem mismatch_counts_beyond_block_witness:
  "exit_status (fst (readbacktest perfect_ops 512
      \<lparr>prevdata0 = (\<lambda>n. 0), originalreaddata0 = (\<lambda>n. 0), writedata0 = (\<lambda>n. 0), readbackdata0 = (\<lambda>n. 1)\<rparr>
      1048576 524288 0 \<lparr>dev = const_mem 0, log = []\<rparr>)) = Some (- 1)"
  using mismatch_counts_beyond_block by simp

text \<open>
  C2, as stated, fails: the claim has the pattern written at byte offset \<open>address\<close>.
  On a perfect device the probe called with address 1048576 and block size 512 writes
  twice, both times at 1048064, and never at 1048576.
\<close>

theorem pattern_not_written_at_address:
  "writes (log (snd (readbacktest perfect_ops 512 (const_frame 0) 1048576 524288 0
      \<lparr>dev = const_mem 0, log = []\<rparr>))) =
     [(1048064, map (\<lambda>n. word_of_int (int n mod 256)) [0..<512]),
      (1048064, load (const_mem 0) 1048064 512)] \<and>
   \<not> (\<exists>d. (1048576, d) \<in> set (writes (log (snd (readbacktest perfect_ops 512 (const_frame 0) 1048576 524288 0
      \<lparr>dev = const_mem 0, log = []\<rparr>)))))"
  by (simp add: perfect_run)

text \<open>
  C2, amended. For every call with \<open>blocksize \<le> address\<close> and a positive modulus, on
  any device: the transfers are an initial part of the list below, so the pattern
  (byte \<open>n\<close> is \<open>(i + n) mod 256\<close>) is written at \<open>address - blocksize\<close>, one block
  below the address passed, and the shadow block read first and read again after the
  restoring write is at \<open>(address - blocksize) mod modulus\<close>; a call that returns made
  exactly the first six transfers.
\<close>

theorem pattern_written_one_block_below:
  assumes "int blocksize \<le> address" "address \<le> OFF_MAX" "0 < modulus"
  shows "\<exists>es r1 r2 r3 r4 r5 r6 r7 d1 d2.
     log (snd (readbacktest ops blocksize fr address modulus i w)) = log w @ Probe address modulus i # es \<and>
     prefix es [Rd ((address - int blocksize) mod modulus) blocksize r1,
                Rd (address - int blocksize) blocksize r2,
                Wr (address - int blocksize) (map (\<lambda>n. word_of_int ((i + int n) mod 256)) [0..<blocksize]) r3,
                Rd (address - int blocksize) blocksize r4,
                Wr (address - int blocksize) d2 r5,
                Rd ((address - int blocksize) mod modulus) blocksize r6,
                Wr (address - int blocksize) d1 r7] \<and>
     (fst (readbacktest ops blocksize fr address modulus i w) = Inr () \<longrightarrow> length es = 6)"
proof -
  obtain r w' where run: "readbacktest ops blocksize fr address modulus i w = (r, w')"
    by (cases "readbacktest ops blocksize fr address modulus i w")
  have a: "to_off_t (address - int blocksize) = address - int blocksize"
    using assms by (intro to_off_t_id) (simp_all add: OFF_MIN_def OFF_MAX_def)
  have old: "shadow blocksize address modulus = (address - int blocksize) mod modulus"
    using assms by (simp add: shadow_def a c_rem_nonneg)
  from readbacktest_log [OF run] obtain es r1 r2 r3 r4 r5 r6 r7 d1 d2 where
    log: "log w' = log w @ Probe address modulus i # es" and
    pre: "prefix es [Rd ((address - int blocksize) mod modulus) blocksize r1,
                Rd (address - int blocksize) blocksize r2,
                Wr (address - int blocksize) (map (\<lambda>n. word_of_int ((i + int n) mod 256)) [0..<blocksize]) r3,
                Rd (address - int blocksize) blocksize r4,
                Wr (address - int blocksize) d2 r5,
                Rd ((address - int blocksize) mod modulus) blocksize r6,
                Wr (address - int blocksize) d1 r7]"
    unfolding a old by blast
  have len: "length es = 6" if "r = Inr ()"
  proof -
    from that have "\<forall>f. r = Inl f \<longrightarrow> \<not> transport f \<and> f \<noteq> Undefined" by simp
    from readbacktest_completed_log [OF run this] that log show ?thesis
      by (auto split: if_splits)
  qed
  show ?thesis
    apply (rule exI [of _ es], rule exI [of _ r1], rule exI [of _ r2], rule exI [of _ r3],
        rule exI [of _ r4], rule exI [of _ r5], rule exI [of _ r6], rule exI [of _ r7],
        rule exI [of _ d1], rule exI [of _ d2])
    using log pre run len by simp
qed

theorem pattern_written_one_block_below_witness:
  "int 512 \<le> 1048576 \<and> (1048576 :: int) \<le> OFF_MAX \<and> (0 :: int) < 524288 \<and>
   fst (readbacktest perfect_ops 512 (const_frame 0) 1048576 524288 0 \<lparr>dev = const_mem 0, log = []\<rparr>) = Inr () \<and>
   (\<exists>es r1 r2 r3 r4 r5 r6 r7 d1 d2.
     log (snd (readbacktest perfect_ops 512 (const_frame 0) 1048576 524288 0 \<lparr>dev = const_mem 0, log = []\<rparr>)) =
       log \<lparr>dev = const_mem 0, log = []\<rparr> @ Probe 1048576 524288 0 # es \<and>
     prefix es [Rd ((1048576 - int 512) mod 524288) 512 r1,
                Rd (1048576 - int 512) 512 r2,
                Wr (1048576 - int 512) (map (\<lambda>n. word_of_int ((0 + int n) mod 256)) [0..<512]) r3,
                Rd (1048576 - int 512) 512 r4,
                Wr (1048576 - int 512) d2 r5,
                Rd ((1048576 - int 512) mod 524288) 512 r6,
                Wr (1048576 - int 512) d1 r7] \<and>
     (fst (readbacktest perfect_ops 512 (const_frame 0) 1048576 524288 0 \<lparr>dev = const_mem 0, log = []\<rparr>) = Inr ()
        \<longrightarrow> length es = 6))"
proof -
  have h1: "int 512 \<le> 1048576" by simp
  have h2: "(1048576 :: int) \<le> OFF_MAX" by (simp add: OFF_MAX_def)
  have h3: "(0 :: int) < 524288" by simp
  have h4: "fst (readbacktest perfect_ops 512 (const_frame 0) 1048576 524288 0 \<lparr>dev = const_mem 0, log = []\<rparr>) = Inr ()"
    by (simp add: perfect_run)
  from pattern_written_one_block_below [OF h1 h2 h3, of perfect_ops "const_frame 0" 0 "\<lparr>dev = const_mem 0, log = []\<rparr>"]
  show ?thesis using h1 h2 h3 h4 by blast
qed

text \<open>
  C3 (the code departs from the claim). The claim: after corruption is detected the
  "before" snapshot of the shadow block is written back to the shadow address. On a
  device whose writes from 1 MiB on also land 1 MiB lower, the probe with address
  2 MiB detects 512 corrupted bytes at the shadow address 1048064 and then writes the
  shadow snapshot at 2096640, the block it probed; none of its three writes goes to
  the shadow address.
\<close>

theorem restorative_write_misses_shadow:
  "shadow 512 2097152 1048576 = 1048064 \<and>
   fst (readbacktest (mirror_ops 1048576) 512 (const_frame 0) 2097152 1048576 1
      \<lparr>dev = split_mem 1048576 1 2, log = []\<rparr>) = Inl (TestFailed 0 512) \<and>
   writes (log (snd (readbacktest (mirror_ops 1048576) 512 (const_frame 0) 2097152 1048576 1
      \<lparr>dev = split_mem 1048576 1 2, log = []\<rparr>))) =
     [(2096640, map (\<lambda>n. word_of_int ((1 + int n) mod 256)) [0..<512]),
      (2096640, load (split_mem 1048576 1 2) 2096640 512),
      (2096640, load (split_mem 1048576 1 2) 1048064 512)]"
  by (simp add: mirror_run second_probe_addresses)

text \<open>In that run nothing is written at the shadow address.\<close>

theorem restorative_write_misses_shadow_witness:
  "\<not> (\<exists>d. (shadow 512 2097152 1048576, d) \<in>
      set (writes (log (snd (readbacktest (mirror_ops 1048576) 512 (const_frame 0) 2097152 1048576 1
        \<lparr>dev = split_mem 1048576 1 2, log = []\<rparr>)))))"
  using restorative_write_misses_shadow by simp

text \<open>
  C1, as stated, fails. On a device that stores every byte one too high the probe ends
  with 512 mismatches and no transport failure, and the probed block reads differently
  after it. On the device of C3, inert and faithful, the probe ends with 512 corrupted
  bytes and leaves the probed block holding the shadow snapshot.
\<close>

theorem restoration_counterexample:
  "fst (readbacktest garble_ops 512 (const_frame 0) 1048576 524288 0 \<lparr>dev = const_mem 0, log = []\<rparr>)
     = Inl (TestFailed 512 0) \<and>
   content garble_ops
     (dev (snd (readbacktest garble_ops 512 (const_frame 0) 1048576 524288 0 \<lparr>dev = const_mem 0, log = []\<rparr>)))
     1048064 512 \<noteq> content garble_ops (const_mem 0) 1048064 512 \<and>
   inert (mirror_ops 1048576) \<and> faithful (mirror_ops 1048576) \<and>
   fst (readbacktest (mirror_ops 1048576) 512 (const_frame 0) 2097152 1048576 1
      \<lparr>dev = split_mem 1048576 1 2, log = []\<rparr>) = Inl (TestFailed 0 512) \<and>
   content (mirror_ops 1048576)
     (dev (snd (readbacktest (mirror_ops 1048576) 512 (const_frame 0) 2097152 1048576 1
        \<lparr>dev = split_mem 1048576 1 2, log = []\<rparr>)))
     2096640 512 \<noteq> content (mirror_ops 1048576) (split_mem 1048576 1 2) 2096640 512"
proof -
  have g: "load (garble_store 1048064 (load (const_mem 0) 1048064 512) m) 1048064 512
      \<noteq> load (const_mem 0) 1048064 512" for m
    by (simp add: garble_store_def load_poke_same map_succ_neq load_neq_Nil)
  have m: "load (mirror_store 1048576 2096640 (load (split_mem 1048576 1 2) 1048064 512) m) 2096640 512
      \<noteq> load (split_mem 1048576 1 2) 2096640 512" for m
    by (simp add: mirror_store_def load_poke_same load_neq split_mem_def)
  have c1: "content garble_ops d x n = Inr (load d x n)" for d x n
    by (simp add: garble_ops_def content_sim)
  have c2: "content (mirror_ops 1048576) d x n = Inr (load d x n)" for d x n
    by (simp add: mirror_ops_def content_sim)
  have i: "inert (mirror_ops 1048576)"
    by (simp add: mirror_ops_def inert_sim)
  show ?thesis
    by (simp add: garble_run mirror_run c1 c2 g m i faithful_mirror)
qed

text \<open>
  C1, amended. On a device that only writes change and that returns on a read the bytes
  of the last complete write there, a probe that detects no corruption and ends without
  a transport failure (it returns, or exits on a non-zero mismatch count) leaves the
  block it wrote, at \<open>address - blocksize\<close>, reading as before, byte for byte.
\<close>

theorem restoration_without_corruption:
  assumes "inert ops" "faithful ops"
    and "fst (readbacktest ops blocksize fr address modulus i w) = Inr () \<or>
         fst (readbacktest ops blocksize fr address modulus i w) = Inl (TestFailed m 0)"
  shows "content ops (dev (snd (readbacktest ops blocksize fr address modulus i w)))
           (to_off_t (address - int blocksize)) blocksize =
         content ops (dev w) (to_off_t (address - int blocksize)) blocksize"
proof -
  let ?a = "to_off_t (address - int blocksize)"
  obtain r w' where run: "readbacktest ops blocksize fr address modulus i w = (r, w')"
    by (cases "readbacktest ops blocksize fr address modulus i w")
  with assms(3) have r: "r = Inr () \<or> r = Inl (TestFailed m 0)" by simp
  then have fin: "\<forall>f. r = Inl f \<longrightarrow> \<not> transport f \<and> f \<noteq> Undefined" by auto
  from readbacktest_completed [OF run fin]
  obtain d1 w1 d2 w2 wd w3 d4 w4 w5 d6 w6 where
    s1: "checkedread ops (shadow blocksize address modulus) blocksize
           (w\<lparr>log := log w @ [Probe address modulus i]\<rparr>) = (Inr d1, w1)" and
    s2: "checkedread ops ?a blocksize w1 = (Inr d2, w2)" and
    s3: "checkedwrite ops ?a wd blocksize w2 = (Inr (), w3)" and
    s4: "checkedread ops ?a blocksize w3 = (Inr d4, w4)" and
    s5: "checkedwrite ops ?a (fill (originalreaddata0 fr) d2) blocksize w4 = (Inr (), w5)" and
    s6: "checkedread ops (shadow blocksize address modulus) blocksize w5 = (Inr d6, w6)" and
    s7: "if count_differing (fill (fill (readbackdata0 fr) d4) d6) (fill (prevdata0 fr) d1) blocksize 0 0 \<noteq> 0
         then checkedwrite ops ?a (fill (prevdata0 fr) d1) blocksize w6 = (Inr (), w')
         else w' = w6" and
    res: "r = (if count_differing (fill (readbackdata0 fr) d4) wd MAXBLOCKSIZE 0 0 \<noteq> 0 \<or>
            count_differing (fill (fill (readbackdata0 fr) d4) d6) (fill (prevdata0 fr) d1) blocksize 0 0 \<noteq> 0
         then Inl (TestFailed (count_differing (fill (readbackdata0 fr) d4) wd MAXBLOCKSIZE 0 0)
                 (count_differing (fill (fill (readbackdata0 fr) d4) d6) (fill (prevdata0 fr) d1) blocksize 0 0))
         else Inr ())"
    by blast
  from r res have "count_differing (fill (fill (readbackdata0 fr) d4) d6) (fill (prevdata0 fr) d1) blocksize 0 0 = 0"
    by (auto split: if_splits)
  with s7 have last: "w' = w6" by simp
  have len: "length d2 = blocksize" using checkedread_Inr [OF s2] by simp
  have before: "content ops (dev w) ?a blocksize = Inr d2"
    using checkedread_inert [OF assms(1) s1] checkedread_inert [OF assms(1) s2] by simp
  have "dev w4 = dev w3" using checkedread_inert [OF assms(1) s4] by simp
  moreover have "fst (sys_write ops (dev w4) ?a d2) = Inr (length d2)"
    and "dev w5 = snd (sys_write ops (dev w4) ?a d2)"
    using checkedwrite_inert [OF assms(1) s5] len by (simp_all add: map_fill)
  ultimately have "content ops (dev w5) ?a (length d2) = Inr d2"
    using assms(2) by (simp add: faithful_def)
  moreover have "dev w6 = dev w5" using checkedread_inert [OF assms(1) s6] by simp
  ultimately show ?thesis using before len last run by simp
qed

theorem restoration_without_corruption_witness:
  "inert perfect_ops \<and> faithful perfect_ops \<and>
   fst (readbacktest perfect_ops 512
      \<lparr>prevdata0 = (\<lambda>n. 0), originalreaddata0 = (\<lambda>n. 0), writedata0 = (\<lambda>n. 0), readbackdata0 = (\<lambda>n. 1)\<rparr>
      1048576 524288 0 \<lparr>dev = const_mem 0, log = []\<rparr>) = Inl (TestFailed 3584 0) \<and>
   content perfect_ops (dev (snd (readbacktest perfect_ops 512
      \<lparr>prevdata0 = (\<lambda>n. 0), originalreaddata0 = (\<lambda>n. 0), writedata0 = (\<lambda>n. 0), readbackdata0 = (\<lambda>n. 1)\<rparr>
      1048576 524288 0 \<lparr>dev = const_mem 0, log = []\<rparr>))) (to_off_t (1048576 - int 512)) 512 =
   content perfect_ops (dev \<lparr>dev = const_mem 0, log = []\<rparr>) (to_off_t (1048576 - int 512)) 512"
proof -
  have h1: "inert perfect_ops" by (simp add: perfect_ops_def inert_sim)
  have h2: "faithful perfect_ops" by (rule faithful_perfect)
  have h3: "fst (readbacktest perfect_ops 512
      \<lparr>prevdata0 = (\<lambda>n. 0), originalreaddata0 = (\<lambda>n. 0), writedata0 = (\<lambda>n. 0), readbackdata0 = (\<lambda>n. 1)\<rparr>
      1048576 524288 0 \<lparr>dev = const_mem 0, log = []\<rparr>) = Inl (TestFailed 3584 0)"
    by (simp add: perfect_run_dirty_stack)
  from restoration_without_corruption [OF h1 h2 disjI2, OF h3]
  show ?thesis using h1 h2 h3 by blast
qed

section \<open>The probes of the two loops\<close>

lemma probes_prefix_Nil:
  assumes "prefix es [Rd x1 n1 r1, Rd x2 n2 r2, Wr x3 d3 r3, Rd x4 n4 r4, Wr x5 d5 r5, Rd x6 n6 r6, Wr x7 d7 r7]"
  shows "probes es = []"
proof -
  from assms obtain zs where "[Rd x1 n1 r1, Rd x2 n2 r2, Wr x3 d3 r3, Rd x4 n4 r4, Wr x5 d5 r5, Rd x6 n6 r6, Wr x7 d7 r7] = es @ zs"
    by (auto simp: prefix_def)
  then have "probes (es @ zs) = []" by (metis probes.simps)
  then show ?thesis by simp
qed

lemma readbacktest_probes:
  assumes "readbacktest ops bs fr address modulus i w = (r, w')"
  shows "probes (log w') = probes (log w) @ [(address, modulus, i)]"
  using readbacktest_log [OF assms] by (auto simp: probes_prefix_Nil)

lemma main_phase2_probes:
  "main_phase2 ops bs stack T modulus offset i w = (r, w') \<Longrightarrow>
     \<exists>n. probes (log w') = probes (log w) @ take n (phase2_schedule T modulus offset i) \<and>
         (phase2_schedule T modulus offset i \<noteq> [] \<longrightarrow> 0 < n) \<and>
         (r = Inr () \<longrightarrow> length (phase2_schedule T modulus offset i) \<le> n)"
proof (induction ops bs stack T modulus offset i w arbitrary: r w' rule: main_phase2.induct)
  case (1 ops bs stack T modulus offset i w)
  let ?o = "to_off_t (to_u64 (to_u64 offset + uint T) div 2)"
  show ?case
  proof (cases "1024 * 1024 < to_u64 (uint T - to_u64 offset)")
    case False
    then have "phase2_schedule T modulus offset i = []"
      by (subst phase2_schedule.simps) simp
    moreover from False "1.prems" have "w' = w"
      by (subst (asm) main_phase2.simps) simp
    ultimately show ?thesis by simp
  next
    case go: True
    show ?thesis
    proof (cases "INT_MAX \<le> i")
      case True
      then have "phase2_schedule T modulus offset i = []"
        by (subst phase2_schedule.simps) simp
      moreover from True go "1.prems" have "w' = w" "r = Inl Undefined"
        by (subst (asm) main_phase2.simps, simp)+
      ultimately show ?thesis by simp
    next
      case False
      obtain r1 w1 where p: "readbacktest ops bs (stack (i + 1)) ?o modulus (i + 1) w = (r1, w1)"
        by (cases "readbacktest ops bs (stack (i + 1)) ?o modulus (i + 1) w")
      note pr = readbacktest_probes [OF p]
      have sched: "phase2_schedule T modulus offset i = (?o, modulus, i + 1) # phase2_schedule T modulus ?o (i + 1)"
        using go False by (subst phase2_schedule.simps) simp
      show ?thesis
      proof (cases r1)
        case (Inl e)
        with go False p "1.prems" have "r = Inl e" "w' = w1"
          by (subst (asm) main_phase2.simps, simp)+
        with pr sched show ?thesis by (intro exI [of _ 1]) simp
      next
        case (Inr u)
        with go False p "1.prems" have rec: "main_phase2 ops bs stack T modulus ?o (i + 1) w1 = (r, w')"
          by (subst (asm) main_phase2.simps) simp
        from "1.IH" [OF go False p [symmetric] _ rec] Inr
        obtain n where n: "probes (log w') = probes (log w1) @ take n (phase2_schedule T modulus ?o (i + 1))"
          and full: "r = Inr () \<longrightarrow> length (phase2_schedule T modulus ?o (i + 1)) \<le> n"
          by blast
        show ?thesis
          using n full pr sched by (intro exI [of _ "Suc n"]) simp
      qed
    qed
  qed
qed


lemma to_u64_id: "0 \<le> x \<Longrightarrow> x \<le> OFF_MAX \<Longrightarrow> to_u64 x = x"
  by (simp add: to_u64_def OFF_MAX_def)

lemma map_upt_shift: "map f [0..<Suc n] = f 0 # map (\<lambda>k. f (Suc k)) [0..<n]"
  by (simp add: map_upt_Suc del: upt_Suc)

lemma main_phase1_probes:
  "main_phase1 ops bs stack T offset i w = (r, w') \<Longrightarrow> 0 < offset \<Longrightarrow> offset \<le> OFF_MAX \<Longrightarrow>
     \<exists>n. probes (log w') = probes (log w) @ map (\<lambda>k. (offset * 2 ^ k, c_div (offset * 2 ^ k) 2, i + int k)) [0..<n] \<and>
         (\<forall>k<n. offset * 2 ^ k \<le> uint T) \<and>
         (offset \<le> uint T \<longrightarrow> 0 < n) \<and>
         (\<forall>res. r = Inr res \<longrightarrow> res = (offset * 2 ^ n, i + int n) \<and> uint T < offset * 2 ^ n \<and> offset * 2 ^ n \<le> OFF_MAX)"
proof (induction ops bs stack T offset i w arbitrary: r w' rule: main_phase1.induct)
  case (1 ops bs stack T offset i w)
  have u: "to_u64 offset = offset" using "1.prems" by (simp add: to_u64_id)
  note eq = main_phase1.simps [of ops bs stack T offset i w, unfolded u]
  show ?case
  proof (cases "offset \<le> uint T")
    case False
    with "1.prems"(1) have "r = Inr (offset, i)" "w' = w"
      by (simp_all add: eq)
    with False "1.prems" show ?thesis by (intro exI [of _ 0]) simp
  next
    case go: True
    obtain r1 w1 where p: "readbacktest ops bs (stack i) offset (c_div offset 2) i w = (r1, w1)"
      by (cases "readbacktest ops bs (stack i) offset (c_div offset 2) i w")
    note pr = readbacktest_probes [OF p]
    show ?thesis
    proof (cases r1)
      case (Inl e)
      with go p "1.prems"(1) have "r = Inl e" "w' = w1"
        by (simp_all add: eq)
      with pr go show ?thesis by (intro exI [of _ 1]) simp
    next
      case (Inr u1)
      show ?thesis
      proof (cases "offset * 2 < OFF_MIN \<or> OFF_MAX < offset * 2 \<or> INT_MAX \<le> i")
        case True
        with Inr go p "1.prems"(1) have "r = Inl Undefined" "w' = w1"
          by (auto simp add: eq split: if_splits)
        with pr go show ?thesis by (intro exI [of _ 1]) simp
      next
        case False
        with Inr go p "1.prems"(1) have rec: "main_phase1 ops bs stack T (offset * 2) (i + 1) w1 = (r, w')"
          by (simp add: eq)
        have pos: "0 < offset * 2" "offset * 2 \<le> OFF_MAX" using "1.prems" False by simp_all
        from go u have c: "to_u64 offset \<le> uint T" by simp
        from False have n1: "\<not> (offset * 2 < OFF_MIN \<or> OFF_MAX < offset * 2)" and n2: "\<not> INT_MAX \<le> i" by simp_all
        from "1.IH" [OF c p [symmetric] _ n1 n2 rec pos] Inr
        obtain n where
          n: "probes (log w') = probes (log w1) @
                map (\<lambda>k. (offset * 2 * 2 ^ k, c_div (offset * 2 * 2 ^ k) 2, i + 1 + int k)) [0..<n]" and
          le: "\<forall>k<n. offset * 2 * 2 ^ k \<le> uint T" and
          res: "\<forall>res. r = Inr res \<longrightarrow> res = (offset * 2 * 2 ^ n, i + 1 + int n) \<and> uint T < offset * 2 * 2 ^ n
                  \<and> offset * 2 * 2 ^ n \<le> OFF_MAX"
          by blast
        have le': "\<forall>k<Suc n. offset * 2 ^ k \<le> uint T"
        proof (intro allI impI)
          fix k assume "k < Suc n"
          then show "offset * 2 ^ k \<le> uint T"
            using le go by (cases k) (simp_all add: mult.assoc)
        qed
        have shift: "offset * 2 * 2 ^ k = offset * 2 ^ Suc k" for k
          by simp
        have m: "map (\<lambda>k. (offset * 2 ^ k, c_div (offset * 2 ^ k) 2, i + int k)) [0..<Suc n] =
                 (offset, c_div offset 2, i) #
                 map (\<lambda>k. (offset * 2 * 2 ^ k, c_div (offset * 2 * 2 ^ k) 2, i + 1 + int k)) [0..<n]"
          unfolding map_upt_shift shift by (simp add: add.assoc)
        have r': "\<forall>res. r = Inr res \<longrightarrow> res = (offset * 2 ^ Suc n, i + int (Suc n)) \<and> uint T < offset * 2 ^ Suc n
                  \<and> offset * 2 ^ Suc n \<le> OFF_MAX"
        proof (intro allI impI)
          fix res assume "r = Inr res"
          with res have "res = (offset * 2 * 2 ^ n, i + 1 + int n)" "uint T < offset * 2 * 2 ^ n"
            "offset * 2 * 2 ^ n \<le> OFF_MAX" by blast+
          then show "res = (offset * 2 ^ Suc n, i + int (Suc n)) \<and> uint T < offset * 2 ^ Suc n
                  \<and> offset * 2 ^ Suc n \<le> OFF_MAX"
            by (simp add: mult.assoc)
        qed
        show ?thesis
        proof (intro exI [of _ "Suc n"] conjI)
          show "probes (log w') = probes (log w) @
              map (\<lambda>k. (offset * 2 ^ k, c_div (offset * 2 ^ k) 2, i + int k)) [0..<Suc n]"
            unfolding m using n pr by simp
          show "\<forall>k<Suc n. offset * 2 ^ k \<le> uint T" by (rule le')
          show "offset \<le> uint T \<longrightarrow> 0 < Suc n" by simp
          show "\<forall>res. r = Inr res \<longrightarrow> res = (offset * 2 ^ Suc n, i + int (Suc n)) \<and>
              uint T < offset * 2 ^ Suc n \<and> offset * 2 ^ Suc n \<le> OFF_MAX"
            by (rule r')
        qed
      qed
    qed
  qed
qed

lemma c_div_2: "0 \<le> x \<Longrightarrow> c_div x 2 = x div 2"
  by (cases "x = 0") (simp_all add: c_div_def)

lemma half_doubling: "c_div (1048576 * 2 ^ k) 2 = 524288 * 2 ^ k"
  by (simp add: c_div_2)

lemma readbacktest_perfect_ok:
  assumes "modulus \<noteq> 0" "0 \<le> to_off_t (address - int bs)" "0 \<le> shadow bs address modulus"
    "bs \<le> MAXBLOCKSIZE" "i + int bs - 1 \<le> INT_MAX"
    "\<forall>n. bs \<le> n \<and> n < MAXBLOCKSIZE \<longrightarrow> readbackdata0 fr n = writedata0 fr n"
  shows "fst (readbacktest perfect_ops bs fr address modulus i w) = Inr ()"
  unfolding readbacktest_perfect [OF assms(1-5)]
  using assms(6) by (simp add: Let_def filter_empty_conv)

lemma readbacktest_probes_snd:
  "probes (log (snd (readbacktest ops bs fr address modulus i w))) = probes (log w) @ [(address, modulus, i)]"
  by (rule readbacktest_probes [of ops bs fr address modulus i w]) (rule surjective_pairing)

lemma main_phase1_stop:
  "\<not> to_u64 offset \<le> uint T \<Longrightarrow> main_phase1 ops bs stack T offset i w = (Inr (offset, i), w)"
  by (subst main_phase1.simps) simp

lemma main_phase1_step:
  assumes "to_u64 offset \<le> uint T" "fst (readbacktest ops bs (stack i) offset (c_div offset 2) i w) = Inr ()"
    "OFF_MIN \<le> offset * 2" "offset * 2 \<le> OFF_MAX" "i < INT_MAX"
  shows "main_phase1 ops bs stack T offset i w =
         main_phase1 ops bs stack T (offset * 2) (i + 1) (snd (readbacktest ops bs (stack i) offset (c_div offset 2) i w))"
proof -
  obtain w1 where p: "readbacktest ops bs (stack i) offset (c_div offset 2) i w = (Inr (), w1)"
    using assms(2) by (cases "readbacktest ops bs (stack i) offset (c_div offset 2) i w") simp
  show ?thesis
    using assms(1,3-5) by (subst main_phase1.simps) (simp add: p)
qed


lemmas probe_arith = to_u64_def to_off_t_def shadow_def c_rem_def c_div_def MAXBLOCKSIZE_def INT_MAX_def
  OFF_MIN_def OFF_MAX_def const_frame_def

lemma phase1_run:
  "fst (main_phase1 perfect_ops 512 (\<lambda>i. const_frame 0) 3145728 (1024 * 1024) 0 \<lparr>dev = const_mem 0, log = []\<rparr>)
     = Inr (4194304, 2)"
  by (simp add: main_phase1_step main_phase1_stop readbacktest_perfect_ok probe_arith)

lemma main_phase2_stop:
  "\<not> 1024 * 1024 < to_u64 (uint T - to_u64 offset) \<Longrightarrow>
     main_phase2 ops bs stack T modulus offset i w = (Inr (), w)"
  by (subst main_phase2.simps) simp

lemma main_phase2_step:
  assumes "1024 * 1024 < to_u64 (uint T - to_u64 offset)" "i < INT_MAX"
    "fst (readbacktest ops bs (stack (i + 1)) (to_off_t (to_u64 (to_u64 offset + uint T) div 2)) modulus (i + 1) w) = Inr ()"
  shows "main_phase2 ops bs stack T modulus offset i w =
         main_phase2 ops bs stack T modulus (to_off_t (to_u64 (to_u64 offset + uint T) div 2)) (i + 1)
           (snd (readbacktest ops bs (stack (i + 1)) (to_off_t (to_u64 (to_u64 offset + uint T) div 2)) modulus (i + 1) w))"
proof -
  obtain w1 where p: "readbacktest ops bs (stack (i + 1)) (to_off_t (to_u64 (to_u64 offset + uint T) div 2))
      modulus (i + 1) w = (Inr (), w1)"
    using assms(3)
    by (cases "readbacktest ops bs (stack (i + 1)) (to_off_t (to_u64 (to_u64 offset + uint T) div 2)) modulus (i + 1) w")
      simp
  show ?thesis
    using assms(1,2) by (subst main_phase2.simps) (simp add: p)
qed

lemma main_probing_small:
  "uint T < 1048576 \<Longrightarrow>
     main_probing ops bs stack T w = main_phase2 ops bs stack T 524288 524288 0 w"
  by (simp add: main_probing_def main_phase1_stop bind_def to_u64_def c_div_def)

section \<open>The schedule of probes\<close>

text \<open>
  C6. On any device, for any reported size: the probes of the first loop are, in order,
  at 1 MiB times \<open>2 ^ k\<close> for \<open>k = 0, 1, ...\<close>, each with modulus half its address and
  sequence number \<open>k\<close>; every address probed is at most \<open>totalsize\<close>; when \<open>totalsize\<close>
  is at least 1 MiB the first probe, at exactly 1 MiB, is made; and when the loop ends
  (no probe exited) the next address, twice the last, exceeds \<open>totalsize\<close>.
\<close>

theorem phase1_doubles:
  "\<exists>n. probes (log (snd (main_phase1 ops blocksize stack totalsize (1024 * 1024) 0 w))) =
          probes (log w) @ map (\<lambda>k. (1048576 * 2 ^ k, 524288 * 2 ^ k, int k)) [0..<n] \<and>
       (\<forall>k<n. 1048576 * 2 ^ k \<le> uint totalsize) \<and>
       (1048576 \<le> uint totalsize \<longrightarrow> 0 < n) \<and>
       (\<forall>res. fst (main_phase1 ops blocksize stack totalsize (1024 * 1024) 0 w) = Inr res \<longrightarrow>
          uint totalsize < 1048576 * 2 ^ n \<and> res = (1048576 * 2 ^ n, int n))"
proof -
  obtain r w' where run: "main_phase1 ops blocksize stack totalsize 1048576 0 w = (r, w')"
    by (cases "main_phase1 ops blocksize stack totalsize 1048576 0 w")
  have "(0::int) < 1048576" "(1048576::int) \<le> OFF_MAX" by (simp_all add: OFF_MAX_def)
  from main_phase1_probes [OF run this]
  obtain n where
    n: "probes (log w') = probes (log w) @ map (\<lambda>k. (1048576 * 2 ^ k, c_div (1048576 * 2 ^ k) 2, 0 + int k)) [0..<n]" and
    le: "\<forall>k<n. 1048576 * 2 ^ k \<le> uint totalsize" and
    first: "1048576 \<le> uint totalsize \<longrightarrow> 0 < n" and
    res: "\<forall>res. r = Inr res \<longrightarrow> res = (1048576 * 2 ^ n, 0 + int n) \<and> uint totalsize < 1048576 * 2 ^ n \<and>
            1048576 * 2 ^ n \<le> OFF_MAX"
    by blast
  show ?thesis
  proof (intro exI [of _ n] conjI)
    show "probes (log (snd (main_phase1 ops blocksize stack totalsize (1024 * 1024) 0 w))) =
          probes (log w) @ map (\<lambda>k. (1048576 * 2 ^ k, 524288 * 2 ^ k, int k)) [0..<n]"
      using n run by (simp add: half_doubling)
    show "\<forall>k<n. 1048576 * 2 ^ k \<le> uint totalsize" by (rule le)
    show "1048576 \<le> uint totalsize \<longrightarrow> 0 < n" by (rule first)
    show "\<forall>res. fst (main_phase1 ops blocksize stack totalsize (1024 * 1024) 0 w) = Inr res \<longrightarrow>
          uint totalsize < 1048576 * 2 ^ n \<and> res = (1048576 * 2 ^ n, int n)"
      using res run by auto
  qed
qed

theorem phase1_doubles_witness:
  "1048576 \<le> uint (3145728 :: 64 word) \<and>
   fst (main_phase1 perfect_ops 512 (\<lambda>i. const_frame 0) 3145728 (1024 * 1024) 0 \<lparr>dev = const_mem 0, log = []\<rparr>)
     = Inr (4194304, 2) \<and>
   (\<exists>n. probes (log (snd (main_phase1 perfect_ops 512 (\<lambda>i. const_frame 0) 3145728 (1024 * 1024) 0
              \<lparr>dev = const_mem 0, log = []\<rparr>))) =
          probes (log \<lparr>dev = const_mem 0, log = []\<rparr>) @ map (\<lambda>k. (1048576 * 2 ^ k, 524288 * 2 ^ k, int k)) [0..<n] \<and>
       (\<forall>k<n. 1048576 * 2 ^ k \<le> uint (3145728 :: 64 word)) \<and>
       (1048576 \<le> uint (3145728 :: 64 word) \<longrightarrow> 0 < n) \<and>
       (\<forall>res. fst (main_phase1 perfect_ops 512 (\<lambda>i. const_frame 0) 3145728 (1024 * 1024) 0
              \<lparr>dev = const_mem 0, log = []\<rparr>) = Inr res \<longrightarrow>
          uint (3145728 :: 64 word) < 1048576 * 2 ^ n \<and> res = (1048576 * 2 ^ n, int n)))"
proof -
  have h: "1048576 \<le> uint (3145728 :: 64 word)" by simp
  from phase1_doubles [of perfect_ops 512 "\<lambda>i. const_frame 0" 3145728 "\<lparr>dev = const_mem 0, log = []\<rparr>"]
  show ?thesis using h phase1_run by blast
qed

text \<open>
  C5 (the code departs from the claim). The claim: no probe below 1 MiB nor above
  \<open>totalsize\<close>. For a device that reports 65536 bytes the first loop makes no probe;
  \<^verbatim>\<open>totalsize - offset\<close> is then computed unsigned with \<open>offset = 524288\<close>, wraps to a
  huge value and the second loop runs: on every device the first probe is at address
  294912, below 1 MiB and above \<open>totalsize\<close>.
\<close>

theorem probe_outside_bounds:
  "\<exists>rest. probes (log (snd (main_probing ops 512 stack 65536 w))) =
     probes (log w) @ (294912, 524288, 1) # rest"
proof -
  obtain r w' where run: "main_phase2 ops 512 stack 65536 524288 524288 0 w = (r, w')"
    by (cases "main_phase2 ops 512 stack 65536 524288 524288 0 w")
  have sched: "phase2_schedule 65536 524288 524288 0 =
      (294912, 524288, 1) # phase2_schedule 65536 524288 294912 1"
    by (subst phase2_schedule.simps) (simp add: to_u64_def to_off_t_def INT_MAX_def)
  from main_phase2_probes [OF run] obtain n where
    n: "probes (log w') = probes (log w) @ take n (phase2_schedule 65536 524288 524288 0)" and
    pos: "phase2_schedule 65536 524288 524288 0 \<noteq> [] \<longrightarrow> 0 < n"
    by blast
  from pos sched obtain k where "n = Suc k" by (cases n) auto
  with n sched run show ?thesis
    by (simp add: main_probing_small)
qed

theorem probe_outside_bounds_witness:
  "(294912, 524288, 1) \<in> set (probes (log (snd (main_probing perfect_ops 512 (\<lambda>i. const_frame 0) 65536
      \<lparr>dev = const_mem 0, log = []\<rparr>)))) \<and> (294912 :: int) < 1048576 \<and> uint (65536 :: 64 word) < 294912"
  using probe_outside_bounds [of perfect_ops "\<lambda>i. const_frame 0" "\<lparr>dev = const_mem 0, log = []\<rparr>"]
  by auto

text \<open>
  C7 (the code departs from the claim). The claim: the second loop uses the last
  address of the first loop as modulus, shrinks \<open>totalsize - offset\<close> in every
  iteration, stops once that interval is at most 1 MiB and runs a number of times
  logarithmic in \<open>totalsize / 1 MiB\<close>. For a perfect device that reports 65536 bytes no
  first-loop probe exists, the interval is below 1 MiB from the start, and the loop
  still runs 19 times with modulus 524288, its addresses coming down to \<open>totalsize\<close>
  from above (the unsigned interval grows each time).
\<close>

theorem bisection_below_one_mebibyte:
  "fst (main_probing perfect_ops 512 (\<lambda>i. const_frame 0) 65536 \<lparr>dev = const_mem 0, log = []\<rparr>) = Inr () \<and>
   probes (log (snd (main_probing perfect_ops 512 (\<lambda>i. const_frame 0) 65536 \<lparr>dev = const_mem 0, log = []\<rparr>))) =
     [(294912, 524288, 1), (180224, 524288, 2), (122880, 524288, 3), (94208, 524288, 4),
      (79872, 524288, 5), (72704, 524288, 6), (69120, 524288, 7), (67328, 524288, 8),
      (66432, 524288, 9), (65984, 524288, 10), (65760, 524288, 11), (65648, 524288, 12),
      (65592, 524288, 13), (65564, 524288, 14), (65550, 524288, 15), (65543, 524288, 16),
      (65539, 524288, 17), (65537, 524288, 18), (65536, 524288, 19)]"
  by (simp add: main_probing_small main_phase2_step main_phase2_stop readbacktest_perfect_ok
      readbacktest_probes_snd probe_arith)

text \<open>In that run the unsigned interval the loop tests grows with the first iteration.\<close>

theorem bisection_below_one_mebibyte_witness:
  "length (probes (log (snd (main_probing perfect_ops 512 (\<lambda>i. const_frame 0) 65536
      \<lparr>dev = const_mem 0, log = []\<rparr>)))) = 19 \<and>
   to_u64 (uint (65536 :: 64 word) - to_u64 524288) < to_u64 (uint (65536 :: 64 word) - to_u64 294912)"
  using bisection_below_one_mebibyte by (simp add: to_u64_def)

section \<open>Short transfers\<close>

lemma clean_ext_refl: "clean_ext l l"
  by (simp add: clean_ext_def)

lemma clean_ext_trans: "clean_ext l l1 \<Longrightarrow> clean_ext l1 l2 \<Longrightarrow> clean_ext l l2"
  by (auto simp: clean_ext_def)

lemma clean_ext_probe: "clean_ext l l1 \<Longrightarrow> clean_ext l (l1 @ [Probe a m i])"
  by (auto simp: clean_ext_def)

lemma clean_fatal: "clean_ext l l' \<Longrightarrow> fatal_ext l r l'"
  by (simp add: fatal_ext_def)

lemma fatal_trans: "clean_ext l l1 \<Longrightarrow> fatal_ext l1 r l2 \<Longrightarrow> fatal_ext l r l2"
  unfolding fatal_ext_def clean_ext_def
  by (elim exE conjE disjE) (auto intro: exI [of _ "_ @ _"])

lemma fatal_Inr: "fatal_ext l (Inr x) l' \<Longrightarrow> clean_ext l l'"
  by (auto simp: fatal_ext_def short_failure_def)

lemma rd_ok: "checkedread ops x n w1 = (Inr d, w2) \<Longrightarrow> clean_ext l (log w1) \<Longrightarrow> clean_ext l (log w2)"
  by (drule checkedread_Inr) (auto simp: clean_ext_def)

lemma wr_ok: "checkedwrite ops x buf n w1 = (Inr u, w2) \<Longrightarrow> clean_ext l (log w1) \<Longrightarrow> clean_ext l (log w2)"
  by (drule checkedwrite_Inr) (auto simp: clean_ext_def)

lemma rd_fail: "checkedread ops x n w1 = (Inl e, w2) \<Longrightarrow> clean_ext l (log w1) \<Longrightarrow> fatal_ext l (Inl e) (log w2)"
  apply (drule checkedread_Inl)
  apply (auto simp: clean_ext_def fatal_ext_def short_failure_def)
  done

lemma wr_fail: "checkedwrite ops x buf n w1 = (Inl e, w2) \<Longrightarrow> clean_ext l (log w1) \<Longrightarrow> fatal_ext l (Inl e) (log w2)"
  apply (drule checkedwrite_Inl)
  apply (auto simp: clean_ext_def fatal_ext_def short_failure_def)
  done


lemma clean_ext_append: "clean_ext l (l @ es) = (\<forall>e\<in>set es. \<not> short_transfer e)"
  by (simp add: clean_ext_def)

lemma fatal_ext_append:
  "fatal_ext l r (l @ es) =
    ((\<forall>e\<in>set es. \<not> short_transfer e) \<or>
     (es \<noteq> [] \<and> (\<forall>e\<in>set (butlast es). \<not> short_transfer e) \<and> short_failure r))"
proof -
  have "(\<exists>es' e. l @ es = l @ es' @ [e] \<and> (\<forall>e\<in>set es'. \<not> short_transfer e) \<and> short_failure r) =
      (es \<noteq> [] \<and> (\<forall>e\<in>set (butlast es). \<not> short_transfer e) \<and> short_failure r)"
  proof (cases es rule: rev_cases)
    case Nil
    then show ?thesis by simp
  next
    case (snoc ys y)
    then show ?thesis by auto
  qed
  then show ?thesis by (simp add: fatal_ext_def clean_ext_append)
qed

lemma readbacktest_fatal:
  assumes "readbacktest ops bs fr address modulus i w = (r, w')"
  shows "fatal_ext (log w) r (log w')"
  using assms
  apply (simp add: readbacktest_def Let_def split: if_splits)
    apply (force simp: fatal_ext_append)
   apply (force simp: fatal_ext_append)
  apply (elim bindE)
    apply (force dest!: transfer_logs simp: fatal_ext_append short_failure_def)
   apply (force dest!: transfer_logs simp: fatal_ext_append short_failure_def)
  apply (simp split: option.splits add: Let_def)
   apply (force dest!: transfer_logs simp: fatal_ext_append short_failure_def)
  apply (elim bindE)
  apply (force dest!: transfer_logs simp: fatal_ext_append short_failure_def split: if_splits)+
  done


lemma fatal_ext_Inl: "fatal_ext l (Inl e :: failure + 'a) l' \<Longrightarrow> fatal_ext l (Inl e :: failure + 'b) l'"
  by (simp add: fatal_ext_def short_failure_def)

lemma main_phase2_fatal:
  "main_phase2 ops bs stack T modulus offset i w = (r, w') \<Longrightarrow> fatal_ext (log w) r (log w')"
proof (induction ops bs stack T modulus offset i w arbitrary: r w' rule: main_phase2.induct)
  case (1 ops bs stack T modulus offset i w)
  let ?o = "to_off_t (to_u64 (to_u64 offset + uint T) div 2)"
  note eq = main_phase2.simps [of ops bs stack T modulus offset i w]
  show ?case
  proof (cases "1024 * 1024 < to_u64 (uint T - to_u64 offset) \<and> \<not> INT_MAX \<le> i")
    case False
    with "1.prems" have "w' = w" by (auto simp: eq split: if_splits)
    then show ?thesis by (simp add: clean_fatal clean_ext_refl)
  next
    case True
    then have go: "1024 * 1024 < to_u64 (uint T - to_u64 offset)" and ni: "\<not> INT_MAX \<le> i" by simp_all
    obtain r1 w1 where p: "readbacktest ops bs (stack (i + 1)) ?o modulus (i + 1) w = (r1, w1)"
      by (cases "readbacktest ops bs (stack (i + 1)) ?o modulus (i + 1) w")
    note f = readbacktest_fatal [OF p]
    show ?thesis
    proof (cases r1)
      case (Inl e)
      with go ni p "1.prems" have "r = Inl e" "w' = w1" by (simp_all add: eq)
      with f Inl show ?thesis by simp
    next
      case (Inr u)
      with go ni p "1.prems" have rec: "main_phase2 ops bs stack T modulus ?o (i + 1) w1 = (r, w')"
        by (simp add: eq)
      from f Inr have "clean_ext (log w) (log w1)" by (auto dest: fatal_Inr)
      with "1.IH" [OF go ni p [symmetric] _ rec] Inr show ?thesis
        by (auto intro: fatal_trans)
    qed
  qed
qed

lemma main_phase1_fatal:
  "main_phase1 ops bs stack T offset i w = (r, w') \<Longrightarrow>
     fatal_ext (log w) r (log w') \<and> (\<forall>res. r = Inr res \<longrightarrow> clean_ext (log w) (log w'))"
proof (induction ops bs stack T offset i w arbitrary: r w' rule: main_phase1.induct)
  case (1 ops bs stack T offset i w)
  note eq = main_phase1.simps [of ops bs stack T offset i w]
  show ?case
  proof (cases "to_u64 offset \<le> uint T")
    case False
    with "1.prems" have "w' = w" by (simp add: eq)
    then show ?thesis by (simp add: clean_fatal clean_ext_refl)
  next
    case go: True
    obtain r1 w1 where p: "readbacktest ops bs (stack i) offset (c_div offset 2) i w = (r1, w1)"
      by (cases "readbacktest ops bs (stack i) offset (c_div offset 2) i w")
    note f = readbacktest_fatal [OF p]
    show ?thesis
    proof (cases r1)
      case (Inl e)
      with go p "1.prems" have "r = Inl e" "w' = w1" by (simp_all add: eq)
      with f Inl show ?thesis by (auto intro: fatal_ext_Inl)
    next
      case (Inr u)
      with f have c: "clean_ext (log w) (log w1)" by (auto dest: fatal_Inr)
      show ?thesis
      proof (cases "offset * 2 < OFF_MIN \<or> OFF_MAX < offset * 2 \<or> INT_MAX \<le> i")
        case True
        with Inr go p "1.prems" have "r = Inl Undefined" "w' = w1"
          by (auto simp add: eq split: if_splits)
        with c show ?thesis by (simp add: clean_fatal)
      next
        case False
        with Inr go p "1.prems" have rec: "main_phase1 ops bs stack T (offset * 2) (i + 1) w1 = (r, w')"
          by (simp add: eq)
        from False have n1: "\<not> (offset * 2 < OFF_MIN \<or> OFF_MAX < offset * 2)" and n2: "\<not> INT_MAX \<le> i" by simp_all
        from "1.IH" [OF go p [symmetric] _ n1 n2 rec] Inr c show ?thesis
          by (auto intro: fatal_trans clean_ext_trans)
      qed
    qed
  qed
qed

lemma main_probing_fatal:
  "fatal_ext (log w) (fst (main_probing ops bs stack T w)) (log (snd (main_probing ops bs stack T w)))"
proof -
  obtain r1 w1 where p: "main_phase1 ops bs stack T (1024 * 1024) 0 w = (r1, w1)"
    by (cases "main_phase1 ops bs stack T (1024 * 1024) 0 w")
  note f = main_phase1_fatal [OF p]
  show ?thesis
  proof (cases r1)
    case (Inl e)
    with p have "main_probing ops bs stack T w = (Inl e, w1)"
      by (simp add: main_probing_def bind_def)
    with f Inl show ?thesis by (auto intro: fatal_ext_Inl)
  next
    case (Inr res)
    obtain offset i where res: "res = (offset, i)" by (cases res)
    from f Inr have c: "clean_ext (log w) (log w1)" by simp
    show ?thesis
    proof (cases "to_u64 offset \<noteq> uint T")
      case True
      with p Inr res have "main_probing ops bs stack T w =
          main_phase2 ops bs stack T (c_div offset 2) (c_div offset 2) i w1"
        by (simp add: main_probing_def bind_def)
      moreover obtain r2 w2 where q: "main_phase2 ops bs stack T (c_div offset 2) (c_div offset 2) i w1 = (r2, w2)"
        by (cases "main_phase2 ops bs stack T (c_div offset 2) (c_div offset 2) i w1")
      ultimately show ?thesis
        using main_phase2_fatal [OF q] c by (auto intro: fatal_trans)
    next
      case False
      with p Inr res have "main_probing ops bs stack T w = (Inr (), w1)"
        by (simp add: main_probing_def bind_def)
      with c show ?thesis by (simp add: clean_fatal)
    qed
  qed
qed

lemma readbacktest_first_read:
  assumes "modulus \<noteq> 0" "to_off_t (address - int bs) \<noteq> OFF_MIN" "bs \<le> MAXBLOCKSIZE"
    "checkedread ops (shadow bs address modulus) bs (w\<lparr>log := log w @ [Probe address modulus i]\<rparr>) = (Inl e, w1)"
  shows "readbacktest ops bs fr address modulus i w = (Inl e, w1)"
  using assms by (simp add: readbacktest_def Let_def bind_def)

lemma short_run:
  "main_probing (sim_ops poke 2) 512 (\<lambda>i. const_frame 0) 2097152 \<lparr>dev = const_mem 0, log = []\<rparr> =
    (Inl (ShortRead 510),
     \<lparr>dev = const_mem 0,
      log = [Probe 1048576 524288 0, Rd 523776 512 (Inr (load (const_mem 0) 523776 510))]\<rparr>)"
proof -
  have rd: "checkedread (sim_ops poke 2) (shadow 512 1048576 524288) 512
      (\<lparr>dev = const_mem 0, log = []\<rparr>\<lparr>log := log \<lparr>dev = const_mem 0, log = []\<rparr> @ [Probe 1048576 524288 0]\<rparr>) =
      (Inl (ShortRead 510),
       \<lparr>dev = const_mem 0,
        log = [Probe 1048576 524288 0, Rd 523776 512 (Inr (load (const_mem 0) 523776 510))]\<rparr>)"
    by (simp add: checkedread_sim first_probe_addresses)
  have p: "readbacktest (sim_ops poke 2) 512 (const_frame 0) 1048576 524288 0 \<lparr>dev = const_mem 0, log = []\<rparr> =
      (Inl (ShortRead 510),
       \<lparr>dev = const_mem 0,
        log = [Probe 1048576 524288 0, Rd 523776 512 (Inr (load (const_mem 0) 523776 510))]\<rparr>)"
    by (rule readbacktest_first_read [OF _ _ _ rd]) (simp_all add: to_off_t_def OFF_MIN_def MAXBLOCKSIZE_def)
  show ?thesis
    by (simp add: main_probing_def bind_def
        main_phase1.simps [of _ _ _ _ 1048576 0 "\<lparr>dev = const_mem 0, log = []\<rparr>"]
        to_u64_def c_div_def p)
qed

text \<open>
  C8. From a log without short transfers, on any device: a \<^verbatim>\<open>read\<close> or \<^verbatim>\<open>write\<close> that
  moves fewer bytes than requested is the last event of the run (no transfer and no
  probe follows it), the run ends in the short-read or short-write exit, and the exit
  status is -1.
\<close>

theorem short_transfer_is_fatal:
  assumes "\<forall>e\<in>set (log w). \<not> short_transfer e"
  shows "\<forall>k<length (log (snd (main_probing ops blocksize stack totalsize w))).
           short_transfer (log (snd (main_probing ops blocksize stack totalsize w)) ! k) \<longrightarrow>
             Suc k = length (log (snd (main_probing ops blocksize stack totalsize w))) \<and>
             (\<exists>n. fst (main_probing ops blocksize stack totalsize w) = Inl (ShortRead n) \<or>
                  fst (main_probing ops blocksize stack totalsize w) = Inl (ShortWrite n)) \<and>
             exit_status (fst (main_probing ops blocksize stack totalsize w)) = Some (- 1)"
proof (intro allI impI)
  let ?r = "fst (main_probing ops blocksize stack totalsize w)"
  let ?l = "log (snd (main_probing ops blocksize stack totalsize w))"
  fix k assume k: "k < length ?l" and s: "short_transfer (?l ! k)"
  have "\<not> clean_ext (log w) ?l"
  proof
    assume "clean_ext (log w) ?l"
    then obtain es where "?l = log w @ es" "\<forall>e\<in>set es. \<not> short_transfer e"
      by (auto simp: clean_ext_def)
    with assms have "\<forall>e\<in>set ?l. \<not> short_transfer e" by auto
    with k s show False by (metis nth_mem)
  qed
  with main_probing_fatal [of w ops blocksize stack totalsize]
  obtain es e where l: "?l = log w @ es @ [e]" and c: "\<forall>e\<in>set es. \<not> short_transfer e"
    and f: "short_failure ?r"
    by (auto simp: fatal_ext_def)
  have "k = length (log w @ es)"
  proof (rule ccontr)
    assume "k \<noteq> length (log w @ es)"
    with k l have "k < length (log w @ es)" by simp
    then have "?l ! k \<in> set (log w @ es)"
      unfolding l by (metis append.assoc nth_append nth_mem)
    with assms c s show False by auto
  qed
  then have "Suc k = length ?l" by (simp add: l)
  moreover from f obtain n where n: "?r = Inl (ShortRead n) \<or> ?r = Inl (ShortWrite n)"
    by (auto simp: short_failure_def)
  moreover from n have "exit_status ?r = Some (- 1)" by auto
  ultimately show "Suc k = length ?l \<and> (\<exists>n. ?r = Inl (ShortRead n) \<or> ?r = Inl (ShortWrite n)) \<and>
      exit_status ?r = Some (- 1)"
    by blast
qed

theorem short_transfer_is_fatal_witness:
  "log \<lparr>dev = const_mem 0, log = []\<rparr> = [] \<and>
   short_transfer (log (snd (main_probing (sim_ops poke 2) 512 (\<lambda>i. const_frame 0) 2097152
      \<lparr>dev = const_mem 0, log = []\<rparr>)) ! 1) \<and>
   Suc 1 = length (log (snd (main_probing (sim_ops poke 2) 512 (\<lambda>i. const_frame 0) 2097152
      \<lparr>dev = const_mem 0, log = []\<rparr>))) \<and>
   fst (main_probing (sim_ops poke 2) 512 (\<lambda>i. const_frame 0) 2097152 \<lparr>dev = const_mem 0, log = []\<rparr>)
     = Inl (ShortRead 510) \<and>
   exit_status (fst (main_probing (sim_ops poke 2) 512 (\<lambda>i. const_frame 0) 2097152
      \<lparr>dev = const_mem 0, log = []\<rparr>)) = Some (- 1)"
proof -
  have h: "\<forall>e\<in>set (log \<lparr>dev = const_mem 0 :: memory, log = []\<rparr>). \<not> short_transfer e" by simp
  have k: "1 < length (log (snd (main_probing (sim_ops poke 2) 512 (\<lambda>i. const_frame 0) 2097152
      \<lparr>dev = const_mem 0, log = []\<rparr>)))"
    by (simp add: short_run)
  have s: "short_transfer (log (snd (main_probing (sim_ops poke 2) 512 (\<lambda>i. const_frame 0) 2097152
      \<lparr>dev = const_mem 0, log = []\<rparr>)) ! 1)"
    by (simp add: short_run)
  from short_transfer_is_fatal [OF h, of "sim_ops poke 2" 512 "\<lambda>i. const_frame 0" 2097152, rule_format, OF k s]
  show ?thesis using s by (simp add: short_run)
qed

section \<open>The shadow address\<close>

lemma fatal_ext_extends: "fatal_ext l r l' \<Longrightarrow> \<exists>es. l' = l @ es"
  by (auto simp: fatal_ext_def clean_ext_def)

lemma main_probing_after_phase1:
  assumes "main_phase1 ops bs stack T (1024 * 1024) 0 w = (r2, w2)"
  shows "\<exists>ys. log (snd (main_probing ops bs stack T w)) = log w2 @ ys"
proof (cases r2)
  case (Inl e)
  with assms show ?thesis by (simp add: main_probing_def bind_def)
next
  case (Inr res)
  obtain offset i where res: "res = (offset, i)" by (cases res)
  show ?thesis
  proof (cases "to_u64 offset \<noteq> uint T")
    case True
    obtain r3 w3 where q: "main_phase2 ops bs stack T (c_div offset 2) (c_div offset 2) i w2 = (r3, w3)"
      by (cases "main_phase2 ops bs stack T (c_div offset 2) (c_div offset 2) i w2")
    from True assms Inr res q have "main_probing ops bs stack T w = (r3, w3)"
      by (simp add: main_probing_def bind_def)
    with fatal_ext_extends [OF main_phase2_fatal [OF q]] show ?thesis by simp
  next
    case False
    with assms Inr res show ?thesis by (simp add: main_probing_def bind_def)
  qed
qed

lemma c_rem_less: "0 < b \<Longrightarrow> c_rem a b < b"
proof -
  assume b: "0 < b"
  then have "\<bar>a\<bar> mod \<bar>b\<bar> < b" "0 \<le> \<bar>a\<bar> mod \<bar>b\<bar>" by simp_all
  then show ?thesis
    by (cases "0 < a"; cases "a = 0") (simp_all add: c_rem_def sgn_if)
qed

lemma prefix_hd: "prefix es (x # xs) \<Longrightarrow> es = [] \<or> hd es = x"
  by (cases es) simp_all

text \<open>
  C10. For every call with a positive modulus the shadow address is strictly below the
  modulus, and the first transfer of the call, if any, is the read of the shadow
  address. For a block size from 1 to \<open>MAXBLOCKSIZE\<close> and a device that reports at
  least 1 MiB, the first call the scheduler makes is with address 1 MiB and modulus
  512 KiB, and its first transfer reads the device at \<open>524288 - blocksize\<close>, below the
  1 MiB floor.
\<close>

theorem shadow_below_modulus:
  assumes "0 < modulus"
  shows "shadow blocksize address modulus < modulus \<and>
    (\<exists>es. log (snd (readbacktest ops blocksize fr address modulus i w)) = log w @ Probe address modulus i # es \<and>
       (es = [] \<or> (\<exists>r. hd es = Rd (shadow blocksize address modulus) blocksize r))) \<and>
    (0 < blocksize \<and> blocksize \<le> MAXBLOCKSIZE \<and> 1048576 \<le> uint totalsize \<longrightarrow>
      (\<exists>rest. log (snd (main_probing ops blocksize stack totalsize w)) = log w @ Probe 1048576 524288 0 # rest \<and>
         (rest = [] \<or> (\<exists>r. hd rest = Rd (524288 - int blocksize) blocksize r))) \<and>
      524288 - int blocksize < 1048576)"
proof (intro conjI impI; (elim conjE)?)
  show "shadow blocksize address modulus < modulus"
    using assms(1) by (simp add: shadow_def c_rem_less)
  show "\<exists>es. log (snd (readbacktest ops blocksize fr address modulus i w)) = log w @ Probe address modulus i # es \<and>
       (es = [] \<or> (\<exists>r. hd es = Rd (shadow blocksize address modulus) blocksize r))"
  proof -
    obtain r w' where run: "readbacktest ops blocksize fr address modulus i w = (r, w')"
      by (cases "readbacktest ops blocksize fr address modulus i w")
    from readbacktest_log [OF run] run show ?thesis
      by (auto dest: prefix_hd)
  qed
  show "524288 - int blocksize < 1048576" by simp
  assume bs: "0 < blocksize" "blocksize \<le> MAXBLOCKSIZE" and ts: "1048576 \<le> uint totalsize"
  show "\<exists>rest. log (snd (main_probing ops blocksize stack totalsize w)) = log w @ Probe 1048576 524288 0 # rest \<and>
       (rest = [] \<or> (\<exists>r. hd rest = Rd (524288 - int blocksize) blocksize r))"
  proof -
    have "(1048576 - int blocksize) mod 524288 = (524288 - int blocksize + 524288) mod 524288"
      by (simp add: algebra_simps)
    also have "\<dots> = (524288 - int blocksize) mod 524288"
      by (simp only: mod_add_self2)
    also have "\<dots> = 524288 - int blocksize"
      using bs by (intro mod_pos_pos_trivial) (simp_all add: MAXBLOCKSIZE_def)
    finally have "(1048576 - int blocksize) mod 524288 = 524288 - int blocksize" .
    then have sh: "shadow blocksize 1048576 524288 = 524288 - int blocksize"
      using bs by (simp add: shadow_def c_rem_def to_off_t_def MAXBLOCKSIZE_def)
    obtain r1 w1 where p: "readbacktest ops blocksize (stack 0) 1048576 524288 0 w = (r1, w1)"
      by (cases "readbacktest ops blocksize (stack 0) 1048576 524288 0 w")
    from readbacktest_log [OF p] obtain es where
      l1: "log w1 = log w @ Probe 1048576 524288 0 # es" and
      hd: "es = [] \<or> (\<exists>r. hd es = Rd (524288 - int blocksize) blocksize r)"
      unfolding sh by (auto dest: prefix_hd)
    note eq = main_phase1.simps [of ops blocksize stack totalsize 1048576 0 w]
    have c: "to_u64 1048576 \<le> uint totalsize" using ts by (simp add: to_u64_def)
    have half: "c_div 1048576 2 = 524288" by (simp add: c_div_def)
    show ?thesis
    proof (cases r1)
      case (Inl e)
      with p c have "main_phase1 ops blocksize stack totalsize (1024 * 1024) 0 w = (Inl e, w1)"
        by (simp add: eq half)
      then have "main_probing ops blocksize stack totalsize w = (Inl e, w1)"
        by (simp add: main_probing_def bind_def)
      with l1 hd show ?thesis by simp
    next
      case (Inr u)
      obtain r2 w2 where q: "main_phase1 ops blocksize stack totalsize (1048576 * 2) (0 + 1) w1 = (r2, w2)"
        by (cases "main_phase1 ops blocksize stack totalsize (1048576 * 2) (0 + 1) w1")
      from Inr p c q have m: "main_phase1 ops blocksize stack totalsize (1024 * 1024) 0 w = (r2, w2)"
        by (simp add: eq half OFF_MIN_def OFF_MAX_def INT_MAX_def)
      from main_phase1_fatal [OF q] obtain xs where xs: "log w2 = log w1 @ xs"
        by (auto dest: fatal_ext_extends)
      from main_probing_after_phase1 [OF m] obtain ys where
        ys: "log (snd (main_probing ops blocksize stack totalsize w)) = log w2 @ ys" by blast
      from Inr have "\<forall>f. r1 = Inl f \<longrightarrow> \<not> transport f \<and> f \<noteq> Undefined" by simp
      from readbacktest_completed_log [OF p this] l1 have ne: "es \<noteq> []" by auto
      with hd obtain r where "hd es = Rd (524288 - int blocksize) blocksize r" by auto
      with ne have "hd (es @ xs @ ys) = Rd (524288 - int blocksize) blocksize r" by simp
      with ys xs l1 show ?thesis
        by (intro exI [of _ "es @ xs @ ys"]) auto
    qed
  qed
qed

theorem shadow_below_modulus_witness:
  "(0 :: int) < 524288 \<and> (0 :: nat) < 512 \<and> 512 \<le> MAXBLOCKSIZE \<and> 1048576 \<le> uint (3145728 :: 64 word) \<and>
   shadow 512 1048576 524288 < 524288 \<and>
   log (snd (readbacktest perfect_ops 512 (const_frame 0) 1048576 524288 0 \<lparr>dev = const_mem 0, log = []\<rparr>)) ! 1 =
     Rd 523776 512 (Inr (load (const_mem 0) 523776 512)) \<and>
   (523776 :: int) < 1048576"
proof -
  have h1: "(0 :: int) < 524288" by simp
  have h2: "(0 :: nat) < 512" by simp
  have h3: "512 \<le> MAXBLOCKSIZE" by (simp add: MAXBLOCKSIZE_def)
  have h4: "1048576 \<le> uint (3145728 :: 64 word)" by simp
  from shadow_below_modulus [OF h1, of 512 1048576]
  have "shadow 512 1048576 524288 < 524288" by blast
  with h1 h2 h3 h4 show ?thesis by (simp add: perfect_run)
qed


section \<open>The schedule on devices of at least 512 KiB\<close>

text \<open>
  Above the size where the unsigned subtraction of the second loop cannot wrap, the
  conversions of \<open>main\<close> are the identity and the schedule is the plain bisection.
\<close>

lemma midpoint_plain:
  assumes "0 \<le> offset" "offset \<le> uint T" "uint T \<le> OFF_MAX"
  shows "to_u64 (uint T - to_u64 offset) = uint T - offset"
    and "to_off_t (to_u64 (to_u64 offset + uint T) div 2) = (offset + uint T) div 2"
proof -
  have u: "to_u64 offset = offset" using assms by (simp add: to_u64_def OFF_MAX_def)
  show "to_u64 (uint T - to_u64 offset) = uint T - offset"
    using assms unfolding u by (simp add: to_u64_def OFF_MAX_def)
  have "to_u64 (offset + uint T) = offset + uint T"
    using assms by (simp add: to_u64_def OFF_MAX_def)
  moreover have "to_off_t ((offset + uint T) div 2) = (offset + uint T) div 2"
    using assms by (intro to_off_t_id) (simp_all add: OFF_MIN_def OFF_MAX_def)
  ultimately show "to_off_t (to_u64 (to_u64 offset + uint T) div 2) = (offset + uint T) div 2"
    unfolding u by simp
qed

lemma phase2_schedule_props:
  "0 \<le> offset \<Longrightarrow> offset \<le> uint T \<Longrightarrow> uint T \<le> OFF_MAX \<Longrightarrow>
    (\<forall>p\<in>set (phase2_schedule T modulus offset i). offset < fst p \<and> fst p \<le> uint T \<and> fst (snd p) = modulus) \<and>
    sorted_wrt (<) (map fst (phase2_schedule T modulus offset i)) \<and>
    (phase2_schedule T modulus offset i \<noteq> [] \<longrightarrow>
       1048576 * 2 ^ (length (phase2_schedule T modulus offset i) - 1) < uint T - offset)"
proof (induction T modulus offset i rule: phase2_schedule.induct)
  case (1 T modulus offset i)
  let ?o = "(offset + uint T) div 2"
  note plain = midpoint_plain [OF "1.prems"]
  show ?case
  proof (cases "1048576 < uint T - offset \<and> i < INT_MAX")
    case False
    then have "phase2_schedule T modulus offset i = []"
      by (subst phase2_schedule.simps) (simp add: plain)
    then show ?thesis by simp
  next
    case True
    then have sched: "phase2_schedule T modulus offset i = (?o, modulus, i + 1) # phase2_schedule T modulus ?o (i + 1)"
      by (subst phase2_schedule.simps) (simp add: plain)
    have o: "offset < ?o" "?o \<le> uint T" "0 \<le> ?o" using True "1.prems" by linarith+
    have cond: "1024 * 1024 < to_u64 (uint T - to_u64 offset) \<and> i < INT_MAX"
      using True by (simp add: plain)
    from "1.IH" [OF cond, unfolded plain, OF o(3) o(2) "1.prems"(3)]
    have ih1: "\<forall>p\<in>set (phase2_schedule T modulus ?o (i + 1)). ?o < fst p \<and> fst p \<le> uint T \<and> fst (snd p) = modulus"
      and ih2: "sorted_wrt (<) (map fst (phase2_schedule T modulus ?o (i + 1)))"
      and ih3: "phase2_schedule T modulus ?o (i + 1) \<noteq> [] \<longrightarrow>
         1048576 * 2 ^ (length (phase2_schedule T modulus ?o (i + 1)) - 1) < uint T - ?o"
      by blast+
    have a: "\<forall>p\<in>set (phase2_schedule T modulus offset i). offset < fst p \<and> fst p \<le> uint T \<and> fst (snd p) = modulus"
      unfolding sched using ih1 o by auto
    have b: "sorted_wrt (<) (map fst (phase2_schedule T modulus offset i))"
      unfolding sched using ih1 ih2 by auto
    have c: "1048576 * 2 ^ (length (phase2_schedule T modulus offset i) - 1) < uint T - offset"
    proof (cases "phase2_schedule T modulus ?o (i + 1) = []")
      case True
      with \<open>1048576 < uint T - offset \<and> i < INT_MAX\<close> show ?thesis unfolding sched by simp
    next
      case False
      then obtain n where n: "length (phase2_schedule T modulus ?o (i + 1)) = Suc n"
        by (cases "phase2_schedule T modulus ?o (i + 1)") auto
      with ih3 False have "1048576 * 2 ^ n < uint T - ?o" by simp
      then have "1048576 * 2 ^ n * 2 < uint T - offset" by linarith
      then show ?thesis unfolding sched by (simp add: n mult.commute mult.left_commute)
    qed
    from a b c show ?thesis by blast
  qed
qed


lemma main_probing_probes:
  "\<exists>n k. probes (log (snd (main_probing ops bs stack T w))) =
           probes (log w) @ map (\<lambda>j. (1048576 * 2 ^ j, 524288 * 2 ^ j, int j)) [0..<n] @
           take k (phase2_schedule T (524288 * 2 ^ n) (524288 * 2 ^ n) (int n)) \<and>
         (\<forall>j<n. 1048576 * 2 ^ j \<le> uint T) \<and>
         (1048576 \<le> uint T \<longrightarrow> 0 < n) \<and>
         (0 < k \<longrightarrow> uint T < 1048576 * 2 ^ n \<and> 1048576 * 2 ^ n \<le> OFF_MAX) \<and>
         (fst (main_probing ops bs stack T w) = Inr () \<longrightarrow>
            uint T < 1048576 * 2 ^ n \<and> 1048576 * 2 ^ n \<le> OFF_MAX \<and>
            length (phase2_schedule T (524288 * 2 ^ n) (524288 * 2 ^ n) (int n)) \<le> k)"
proof -
  obtain r1 w1 where p: "main_phase1 ops bs stack T 1048576 0 w = (r1, w1)"
    by (cases "main_phase1 ops bs stack T 1048576 0 w")
  have "(0::int) < 1048576" "(1048576::int) \<le> OFF_MAX" by (simp_all add: OFF_MAX_def)
  from main_phase1_probes [OF p this]
  obtain n where
    n: "probes (log w1) = probes (log w) @ map (\<lambda>k. (1048576 * 2 ^ k, c_div (1048576 * 2 ^ k) 2, 0 + int k)) [0..<n]" and
    le: "\<forall>k<n. 1048576 * 2 ^ k \<le> uint T" and
    first: "1048576 \<le> uint T \<longrightarrow> 0 < n" and
    res: "\<forall>res. r1 = Inr res \<longrightarrow> res = (1048576 * 2 ^ n, 0 + int n) \<and> uint T < 1048576 * 2 ^ n \<and>
            1048576 * 2 ^ n \<le> OFF_MAX"
    by blast
  have n': "probes (log w1) = probes (log w) @ map (\<lambda>j. (1048576 * 2 ^ j, 524288 * 2 ^ j, int j)) [0..<n]"
    using n by (simp add: half_doubling)
  show ?thesis
  proof (cases r1)
    case (Inl e)
    with p have "main_probing ops bs stack T w = (Inl e, w1)"
      by (simp add: main_probing_def bind_def)
    with n' le first show ?thesis
      by (intro exI [of _ n] exI [of _ 0]) simp
  next
    case (Inr res')
    with res have r: "res' = (1048576 * 2 ^ n, int n)" and gt: "uint T < 1048576 * 2 ^ n"
      and mx: "1048576 * 2 ^ n \<le> OFF_MAX" by simp_all
    have "to_u64 (1048576 * 2 ^ n) = 1048576 * 2 ^ n" using mx by (intro to_u64_id) simp_all
    with gt have ne: "to_u64 (1048576 * 2 ^ n) \<noteq> uint T" by simp
    obtain r2 w2 where q: "main_phase2 ops bs stack T (524288 * 2 ^ n) (524288 * 2 ^ n) (int n) w1 = (r2, w2)"
      by (cases "main_phase2 ops bs stack T (524288 * 2 ^ n) (524288 * 2 ^ n) (int n) w1")
    from p Inr r ne q have m: "main_probing ops bs stack T w = (r2, w2)"
      by (simp add: main_probing_def bind_def half_doubling)
    from main_phase2_probes [OF q] obtain k where
      k: "probes (log w2) = probes (log w1) @ take k (phase2_schedule T (524288 * 2 ^ n) (524288 * 2 ^ n) (int n))" and
      full: "r2 = Inr () \<longrightarrow> length (phase2_schedule T (524288 * 2 ^ n) (524288 * 2 ^ n) (int n)) \<le> k"
      by blast
    show ?thesis
      using m k n' le first gt mx full
      by (intro exI [of _ n] exI [of _ k]) simp
  qed
qed

text \<open>
  For a device that reports at least 512 KiB, every probe the scheduler makes is at an
  address from 1 MiB to \<open>totalsize\<close>.
\<close>

lemma probes_within_bounds:
  assumes "524288 \<le> uint T"
  shows "\<exists>ps. probes (log (snd (main_probing ops bs stack T w))) = probes (log w) @ ps \<and>
           (\<forall>p\<in>set ps. 1048576 \<le> fst p \<and> fst p \<le> uint T)"
proof -
  from main_probing_probes [of ops bs stack T w] obtain n k where
    pr: "probes (log (snd (main_probing ops bs stack T w))) =
           probes (log w) @ map (\<lambda>j. (1048576 * 2 ^ j, 524288 * 2 ^ j, int j)) [0..<n] @
           take k (phase2_schedule T (524288 * 2 ^ n) (524288 * 2 ^ n) (int n))" and
    le: "\<forall>j<n. 1048576 * 2 ^ j \<le> uint T" and
    k: "0 < k \<longrightarrow> uint T < 1048576 * 2 ^ n \<and> 1048576 * 2 ^ n \<le> OFF_MAX"
    by blast
  let ?s = "phase2_schedule T (524288 * 2 ^ n) (524288 * 2 ^ n) (int n)"
  have one: "\<forall>p\<in>set (map (\<lambda>j. (1048576 * 2 ^ j, 524288 * 2 ^ j, int j)) [0..<n]).
      (1048576::int) \<le> fst p \<and> fst p \<le> uint T"
    using le by auto
  have two: "\<forall>p\<in>set (take k ?s). 1048576 \<le> fst p \<and> fst p \<le> uint T"
  proof (cases "0 < k")
    case False
    then show ?thesis by simp
  next
    case True
    with k have gt: "uint T < 1048576 * 2 ^ n" and mx: "1048576 * 2 ^ n \<le> OFF_MAX" by simp_all
    have dbl: "(1048576::int) * 2 ^ n = 2 * (524288 * 2 ^ n)" by simp
    show ?thesis
    proof (cases n)
      case 0
      with gt assms have "\<not> 1048576 < uint T - 524288" by simp
      then have "?s = []"
        using 0 assms by (subst phase2_schedule.simps) (simp add: to_u64_def)
      then show ?thesis by simp
    next
      case (Suc m)
      with le have low: "524288 * 2 ^ n \<le> uint T" by (auto simp: mult.assoc dest: spec [of _ m])
      have big: "(1048576::int) \<le> 524288 * 2 ^ n" using Suc by simp
      have "uint T \<le> OFF_MAX" using gt mx by simp
      from phase2_schedule_props [OF _ low this, of "524288 * 2 ^ n" "int n"]
      have in_s: "\<forall>p\<in>set ?s. 524288 * 2 ^ n < fst p \<and> fst p \<le> uint T" by simp
      show ?thesis
      proof
        fix p assume "p \<in> set (take k ?s)"
        then have "p \<in> set ?s" by (rule in_set_takeD)
        with in_s have "524288 * 2 ^ n < fst p" "fst p \<le> uint T" by blast+
        with big show "1048576 \<le> fst p \<and> fst p \<le> uint T" by linarith
      qed
    qed
  qed
  show ?thesis
    using pr one two by (intro exI [of _ "map (\<lambda>j. (1048576 * 2 ^ j, 524288 * 2 ^ j, int j)) [0..<n] @ take k ?s"]) auto
qed


lemma phase2_schedule_midpoints:
  "0 \<le> offset \<Longrightarrow> offset \<le> uint T \<Longrightarrow> uint T \<le> OFF_MAX \<Longrightarrow>
    \<forall>j<length (phase2_schedule T modulus offset i).
      fst (phase2_schedule T modulus offset i ! j) =
        ((offset # map fst (phase2_schedule T modulus offset i)) ! j + uint T) div 2"
proof (induction T modulus offset i rule: phase2_schedule.induct)
  case (1 T modulus offset i)
  let ?o = "(offset + uint T) div 2"
  note plain = midpoint_plain [OF "1.prems"]
  show ?case
  proof (cases "1048576 < uint T - offset \<and> i < INT_MAX")
    case False
    then have "phase2_schedule T modulus offset i = []"
      by (subst phase2_schedule.simps) (simp add: plain)
    then show ?thesis by simp
  next
    case True
    then have sched: "phase2_schedule T modulus offset i = (?o, modulus, i + 1) # phase2_schedule T modulus ?o (i + 1)"
      by (subst phase2_schedule.simps) (simp add: plain)
    have o: "?o \<le> uint T" "0 \<le> ?o" using True "1.prems" by linarith+
    have cond: "1024 * 1024 < to_u64 (uint T - to_u64 offset) \<and> i < INT_MAX"
      using True by (simp add: plain)
    note ih = "1.IH" [OF cond, unfolded plain, OF o(2) o(1) "1.prems"(3)]
    show ?thesis
    proof (intro allI impI)
      fix j assume "j < length (phase2_schedule T modulus offset i)"
      then show "fst (phase2_schedule T modulus offset i ! j) =
          ((offset # map fst (phase2_schedule T modulus offset i)) ! j + uint T) div 2"
        unfolding sched using ih by (cases j) simp_all
    qed
  qed
qed

lemma main_phase2_stops:
  "main_phase2 ops bs stack T modulus offset i w = (Inr (), w') \<Longrightarrow>
     \<not> 1024 * 1024 < to_u64 (uint T - to_u64 (last (offset # map fst (phase2_schedule T modulus offset i))))"
proof (induction ops bs stack T modulus offset i w arbitrary: w' rule: main_phase2.induct)
  case (1 ops bs stack T modulus offset i w)
  let ?o = "to_off_t (to_u64 (to_u64 offset + uint T) div 2)"
  note eq = main_phase2.simps [of ops bs stack T modulus offset i w]
  show ?case
  proof (cases "1024 * 1024 < to_u64 (uint T - to_u64 offset)")
    case False
    then have "phase2_schedule T modulus offset i = []"
      by (subst phase2_schedule.simps) simp
    with False show ?thesis by simp
  next
    case go: True
    with "1.prems" have ni: "\<not> INT_MAX \<le> i" by (auto simp: eq split: if_splits)
    obtain r1 w1 where p: "readbacktest ops bs (stack (i + 1)) ?o modulus (i + 1) w = (r1, w1)"
      by (cases "readbacktest ops bs (stack (i + 1)) ?o modulus (i + 1) w")
    from go ni p "1.prems" obtain u where r1: "r1 = Inr u"
      by (cases r1) (simp_all add: eq)
    with go ni p "1.prems" have rec: "main_phase2 ops bs stack T modulus ?o (i + 1) w1 = (Inr (), w')"
      by (simp add: eq)
    have sched: "phase2_schedule T modulus offset i = (?o, modulus, i + 1) # phase2_schedule T modulus ?o (i + 1)"
      using go ni by (subst phase2_schedule.simps) simp
    from "1.IH" [OF go ni p [symmetric] _ rec] r1 show ?thesis
      unfolding sched by simp
  qed
qed

text \<open>
  For a device that reports at least 1 MiB, a run in which no probe exits: the second
  loop probes with the last address of the first loop as modulus, each time at the
  midpoint between the previous address and \<open>totalsize\<close>, at strictly increasing
  addresses up to \<open>totalsize\<close>; it makes at most \<open>log2 (totalsize / 1 MiB)\<close> probes and
  ends with at most 1 MiB left.
\<close>

lemma bisection_converges:
  assumes "1048576 \<le> uint T" and "fst (main_probing ops bs stack T w) = Inr ()"
  shows "\<exists>n sched.
      probes (log (snd (main_probing ops bs stack T w))) =
        probes (log w) @ map (\<lambda>j. (1048576 * 2 ^ j, 524288 * 2 ^ j, int j)) [0..<Suc n] @ sched \<and>
      (\<forall>p\<in>set sched. fst (snd p) = 1048576 * 2 ^ n \<and> 1048576 * 2 ^ n < fst p \<and> fst p \<le> uint T) \<and>
      (\<forall>j<length sched. fst (sched ! j) = ((1048576 * 2 ^ n # map fst sched) ! j + uint T) div 2) \<and>
      sorted_wrt (<) (map fst sched) \<and>
      1048576 * 2 ^ length sched \<le> uint T \<and>
      uint T - last (1048576 * 2 ^ n # map fst sched) \<le> 1048576"
proof -
  obtain r1 w1 where p: "main_phase1 ops bs stack T 1048576 0 w = (r1, w1)"
    by (cases "main_phase1 ops bs stack T 1048576 0 w")
  have "(0::int) < 1048576" "(1048576::int) \<le> OFF_MAX" by (simp_all add: OFF_MAX_def)
  from main_phase1_probes [OF p this]
  obtain m where
    m: "probes (log w1) = probes (log w) @ map (\<lambda>k. (1048576 * 2 ^ k, c_div (1048576 * 2 ^ k) 2, 0 + int k)) [0..<m]" and
    le: "\<forall>k<m. 1048576 * 2 ^ k \<le> uint T" and
    first: "1048576 \<le> uint T \<longrightarrow> 0 < m" and
    res: "\<forall>res. r1 = Inr res \<longrightarrow> res = (1048576 * 2 ^ m, 0 + int m) \<and> uint T < 1048576 * 2 ^ m \<and>
            1048576 * 2 ^ m \<le> OFF_MAX"
    by blast
  from first assms(1) obtain n where mn: "m = Suc n" by (cases m) auto
  let ?P = "(1048576::int) * 2 ^ n"
  have half: "(524288::int) * 2 ^ m = ?P" by (simp add: mn)
  have m': "probes (log w1) = probes (log w) @ map (\<lambda>j. (1048576 * 2 ^ j, 524288 * 2 ^ j, int j)) [0..<Suc n]"
    using m unfolding mn by (simp add: half_doubling del: upt_Suc)
  from assms(2) p obtain res' where r1: "r1 = Inr res'"
    by (cases r1) (simp_all add: main_probing_def bind_def)
  with res have r: "res' = (1048576 * 2 ^ m, int m)" and gt: "uint T < 1048576 * 2 ^ m"
    and mx: "1048576 * 2 ^ m \<le> OFF_MAX" by simp_all
  have "to_u64 (1048576 * 2 ^ m) = 1048576 * 2 ^ m" using mx by (intro to_u64_id) simp_all
  with gt have ne: "to_u64 (1048576 * 2 ^ m) \<noteq> uint T" by simp
  obtain r2 w2 where q: "main_phase2 ops bs stack T ?P ?P (int m) w1 = (r2, w2)"
    by (cases "main_phase2 ops bs stack T ?P ?P (int m) w1")
  from p r1 r ne q have run: "main_probing ops bs stack T w = (r2, w2)"
    by (simp add: main_probing_def bind_def half_doubling half)
  with assms(2) have r2: "r2 = Inr ()" by simp
  let ?s = "phase2_schedule T ?P ?P (int m)"
  from main_phase2_probes [OF q] r2 obtain k where
    k: "probes (log w2) = probes (log w1) @ take k ?s" and full: "length ?s \<le> k"
    by blast
  have low: "?P \<le> uint T" using le mn by simp
  have pos: "0 \<le> ?P" by simp
  have tmax: "uint T \<le> OFF_MAX" using gt mx by simp
  note props = phase2_schedule_props [OF pos low tmax, of ?P "int m"]
  note mids = phase2_schedule_midpoints [OF pos low tmax, of ?P "int m"]
  have count: "1048576 * 2 ^ length ?s \<le> uint T"
  proof (cases "?s = []")
    case True
    with assms(1) show ?thesis by simp
  next
    case False
    then obtain l where l: "length ?s = Suc l" by (cases ?s) auto
    from props False l have "1048576 * 2 ^ l < uint T - ?P" by simp
    moreover have "uint T < 2 * ?P" using gt by (simp add: mn)
    ultimately have "2 * (1048576 * 2 ^ l) < uint T" by linarith
    then show ?thesis by (simp add: l)
  qed
  have stop: "uint T - last (?P # map fst ?s) \<le> 1048576"
  proof -
    have range: "?P \<le> last (?P # map fst ?s) \<and> last (?P # map fst ?s) \<le> uint T"
    proof (cases "?s = []")
      case True
      with low show ?thesis by simp
    next
      case False
      then have "last (?P # map fst ?s) = fst (last ?s)" by (simp add: last_map)
      moreover from False have "last ?s \<in> set ?s" by simp
      ultimately show ?thesis using props by auto
    qed
    from range pos have nn: "0 \<le> last (?P # map fst ?s)" by linarith
    from range have up: "last (?P # map fst ?s) \<le> uint T" by blast
    have "to_u64 (uint T - to_u64 (last (?P # map fst ?s))) = uint T - last (?P # map fst ?s)"
      by (rule midpoint_plain(1) [OF nn up tmax])
    with main_phase2_stops [OF q [unfolded r2]] show ?thesis by simp
  qed
  show ?thesis
  proof (intro exI [of _ n] exI [of _ ?s] conjI)
    show "probes (log (snd (main_probing ops bs stack T w))) =
        probes (log w) @ map (\<lambda>j. (1048576 * 2 ^ j, 524288 * 2 ^ j, int j)) [0..<Suc n] @ ?s"
      using run k full m' by simp
    show "\<forall>p\<in>set ?s. fst (snd p) = ?P \<and> ?P < fst p \<and> fst p \<le> uint T"
      using props by blast
    show "\<forall>j<length ?s. fst (?s ! j) = ((?P # map fst ?s) ! j + uint T) div 2"
      by (rule mids)
    show "sorted_wrt (<) (map fst ?s)" using props by blast
    show "1048576 * 2 ^ length ?s \<le> uint T" by (rule count)
    show "uint T - last (?P # map fst ?s) \<le> 1048576" by (rule stop)
  qed
qed

end
